theory Spec2Isabelle
  imports Complex_Main "HOL-Library.Sublist"
begin

section \<open>Values shared by the services\<close>

text \<open>
  A JavaScript \<open>Date\<close> is modelled by its \<open>getTime()\<close> value, the milliseconds since the
  epoch, so only valid dates are covered. An optional string field (\<open>undefined\<close> or
  \<open>null\<close>) is \<open>None\<close>. Texts are byte strings (UTF-8).
\<close>

type_synonym timestamp = int

text \<open>\<open>x || d\<close> on a string: the default replaces an absent and an empty string.\<close>

definition js_or :: "string option \<Rightarrow> string \<Rightarrow> string" where
  "js_or x d = (case x of None \<Rightarrow> d | Some s \<Rightarrow> if s = [] then d else s)"

text \<open>\<open>x || d\<close> on a parsed date string (a present date string is never empty).\<close>

definition js_or_time :: "timestamp option \<Rightarrow> timestamp \<Rightarrow> timestamp" where
  "js_or_time x d = (case x of None \<Rightarrow> d | Some t \<Rightarrow> t)"

text \<open>\<open>xs || []\<close> on an optional array (an empty array is truthy).\<close>

definition js_or_list :: "'a list option \<Rightarrow> 'a list" where
  "js_or_list x = (case x of None \<Rightarrow> [] | Some xs \<Rightarrow> xs)"

text \<open>A value interpolated into a template literal: \<open>undefined\<close> prints as such.\<close>

definition js_show :: "string option \<Rightarrow> string" where
  "js_show x = (case x of None \<Rightarrow> ''undefined'' | Some s \<Rightarrow> s)"

text \<open>
  A field that may be left out or be \<open>null\<close>: \<open>!==\<close> tells the two apart, the database
  driver writes both as \<open>NULL\<close> and reads \<open>NULL\<close> back as \<open>null\<close>.
\<close>

datatype 'a nullable = Undefined | Null | Present 'a

fun to_column :: "'a nullable \<Rightarrow> 'a option" where
  "to_column Undefined = None"
| "to_column Null = None"
| "to_column (Present x) = Some x"

fun of_column :: "'a option \<Rightarrow> 'a nullable" where
  "of_column None = Null"
| "of_column (Some x) = Present x"

text \<open>A natural number printed in decimal, as a template literal prints a length.\<close>

fun show_nat :: "nat \<Rightarrow> string" where
  "show_nat n =
     (if n < 10 then [char_of (48 + n)]
      else show_nat (n div 10) @ [char_of (48 + n mod 10)])"

declare show_nat.simps [simp del]

definition apostrophe :: string where
  "apostrophe = [CHR 0x27]"

definition double_quote :: string where
  "double_quote = [CHR 0x22]"

text \<open>The enums of \<open>types/enums\<close> with their string values.\<close>

datatype EventType = WORK | PERSONAL | FREE | UNKNOWN

fun EventType_value :: "EventType \<Rightarrow> string" where
  "EventType_value WORK = ''work''"
| "EventType_value PERSONAL = ''personal''"
| "EventType_value FREE = ''free''"
| "EventType_value UNKNOWN = ''unknown''"

datatype EventStatus = CONFIRMED | TENTATIVE | CANCELLED

fun EventStatus_value :: "EventStatus \<Rightarrow> string" where
  "EventStatus_value CONFIRMED = ''confirmed''"
| "EventStatus_value TENTATIVE = ''tentative''"
| "EventStatus_value CANCELLED = ''cancelled''"

text \<open>
  An event as the remote calendar returns it (\<open>GoogleCalendarEvent\<close>, read as \<open>any\<close> by
  the calendar service). \<open>g_start_dateTime\<close> is \<open>start?.dateTime\<close> parsed,
  \<open>g_start_date\<close> is \<open>start?.date\<close> parsed; \<open>g_attendees\<close> holds the attendees' emails.
  On these fields the code tests truthiness or compares with a string, which \<open>undefined\<close>
  and \<open>null\<close> answer alike: one \<open>None\<close> stands for both.
\<close>

record GoogleEvent =
  g_id :: string
  g_summary :: "string option"
  g_description :: "string option"
  g_location :: "string option"
  g_start_dateTime :: "timestamp option"
  g_start_date :: "timestamp option"
  g_end_dateTime :: "timestamp option"
  g_end_date :: "timestamp option"
  g_status :: "string option"
  g_updated :: "timestamp option"
  g_attendees :: "string list option"

text \<open>
  A row of \<open>calendar_events\<close> as \<open>createFromDatabaseRow\<close> returns it (\<open>CalendarEvent\<close>).
  The columns \<open>id\<close>, \<open>created_at\<close> and \<open>updated_at\<close> are read by none of the functions
  below and are left out. \<open>event_type\<close> and \<open>status\<close> hold the strings the table stores.
\<close>

record CalendarEvent =
  user_id :: int
  event_id :: string
  summary :: string
  description :: "string option"
  location :: "string option"
  start_time :: timestamp
  end_time :: timestamp
  all_day :: bool
  event_type :: string
  status :: string
  attendees :: "string list"
  last_modified :: "timestamp option"

text \<open>
  The argument of \<open>upsert\<close> (\<open>CreateEventData\<close>); the fields \<open>summary\<close>, \<open>description\<close>,
  \<open>location\<close>, \<open>status\<close> and \<open>attendees\<close> carry the prefix \<open>d_\<close>. Description and
  location are \<open>string | null\<close> and optional, the attendees are optional.
\<close>

record CreateEventData =
  userId :: int
  eventId :: string
  d_summary :: string
  d_description :: "string nullable"
  d_location :: "string nullable"
  startTime :: timestamp
  endTime :: timestamp
  allDay :: bool
  eventType :: string
  d_status :: string
  d_attendees :: "string list option"

section \<open>The snapshot store (models/CalendarEvent.ts)\<close>

text \<open>
  The table is the list of its rows in insertion order; \<open>now\<close> is \<open>CURRENT_TIMESTAMP\<close>.
  The table declares \<open>UNIQUE(user_id, event_id)\<close>; the model does not assume it and lets
  a statement act on every row with the key.
\<close>

type_synonym table = "CalendarEvent list"

definition has_key :: "int \<Rightarrow> string \<Rightarrow> CalendarEvent \<Rightarrow> bool" where
  "has_key uid eid r \<longleftrightarrow> user_id r = uid \<and> event_id r = eid"

text \<open>
  \<open>WHERE user_id = $1 AND start_time >= $2 AND start_time < $3 AND status != $4
  ORDER BY start_time ASC\<close>, with \<open>$4 = EventStatus.CANCELLED\<close>.
\<close>

definition findByUserIdAndDateRange :: "table \<Rightarrow> int \<Rightarrow> timestamp \<Rightarrow> timestamp \<Rightarrow> CalendarEvent list" where
  "findByUserIdAndDateRange db uid startDate endDate =
     sort_key start_time
       (filter (\<lambda>r. user_id r = uid \<and> startDate \<le> start_time r \<and> start_time r < endDate
                   \<and> status r \<noteq> EventStatus_value CANCELLED) db)"

definition findByUserIdAndEventId :: "table \<Rightarrow> int \<Rightarrow> string \<Rightarrow> CalendarEvent option" where
  "findByUserIdAndEventId db uid eid = find (has_key uid eid) db"

text \<open>The comparison of \<open>upsert\<close>, lines 36 to 52: a new event counts as changed.\<close>

definition hasChanged :: "CalendarEvent option \<Rightarrow> CreateEventData \<Rightarrow> bool" where
  "hasChanged existingEvent eventData =
     (case existingEvent of
        None \<Rightarrow> True
      | Some ex \<Rightarrow>
          summary ex \<noteq> d_summary eventData \<or>
          of_column (description ex) \<noteq> d_description eventData \<or>
          of_column (location ex) \<noteq> d_location eventData \<or>
          start_time ex \<noteq> startTime eventData \<or>
          end_time ex \<noteq> endTime eventData \<or>
          status ex \<noteq> d_status eventData \<or>
          attendees ex \<noteq> js_or_list (d_attendees eventData))"

text \<open>The row an \<open>INSERT\<close> creates; \<open>last_modified\<close> takes its column default.\<close>

definition insertedRow :: "timestamp \<Rightarrow> CreateEventData \<Rightarrow> CalendarEvent" where
  "insertedRow now eventData =
     \<lparr> user_id = userId eventData, event_id = eventId eventData,
       summary = d_summary eventData, description = to_column (d_description eventData),
       location = to_column (d_location eventData), start_time = startTime eventData,
       end_time = endTime eventData, all_day = allDay eventData,
       event_type = eventType eventData, status = d_status eventData,
       attendees = js_or_list (d_attendees eventData), last_modified = Some now \<rparr>"

text \<open>The \<open>DO UPDATE SET\<close> clause applied to a conflicting row.\<close>

definition updatedRow :: "timestamp \<Rightarrow> bool \<Rightarrow> CreateEventData \<Rightarrow> CalendarEvent \<Rightarrow> CalendarEvent" where
  "updatedRow now changed eventData r =
     r \<lparr> summary := d_summary eventData, description := to_column (d_description eventData),
         location := to_column (d_location eventData), start_time := startTime eventData,
         end_time := endTime eventData, all_day := allDay eventData,
         event_type := eventType eventData, status := d_status eventData,
         attendees := js_or_list (d_attendees eventData),
         last_modified := (if changed then Some now else last_modified r) \<rparr>"

text \<open>A thrown value: an \<open>Error\<close> object with its message, or anything else.\<close>

datatype error = Error string | NotAnError

text \<open>
  The database is an external collaborator of \<open>upsert\<close>: \<open>rejects eventData\<close> is the
  error it raises for the row (a violated constraint of the table, a failed query) and
  \<open>None\<close> when the statements run. \<open>upsert\<close> then throws that error and the table is as
  before; otherwise it returns the table after the statement and the row of
  \<open>RETURNING *\<close>.
\<close>

definition upsert :: "(CreateEventData \<Rightarrow> error option) \<Rightarrow> timestamp \<Rightarrow> table \<Rightarrow> CreateEventData \<Rightarrow> error + table \<times> CalendarEvent" where
  "upsert rejects now db eventData =
     (let existingEvent = findByUserIdAndEventId db (userId eventData) (eventId eventData);
          changed = hasChanged existingEvent eventData
      in case rejects eventData of
           Some err \<Rightarrow> Inl err
         | None \<Rightarrow>
             (case existingEvent of
                None \<Rightarrow> Inr (db @ [insertedRow now eventData], insertedRow now eventData)
              | Some ex \<Rightarrow>
                  Inr (map (\<lambda>r. if has_key (userId eventData) (eventId eventData) r
                                  then updatedRow now changed eventData r else r) db,
                       updatedRow now changed eventData ex)))"

text \<open>
  The constraints that \<open>CREATE TABLE calendar_events\<close> puts on the columns an upsert
  writes: \<open>event_id VARCHAR(255)\<close>, \<open>summary VARCHAR(500)\<close> and the two \<open>CHECK\<close>s, with
  the messages of the database. A \<open>VARCHAR\<close> counts characters: in UTF-8, the bytes that
  do not continue a character. The user the row refers to is taken to exist. This is the
  database of the sample environment; the theorems hold for every \<open>rejects\<close>.
\<close>

definition char_count :: "string \<Rightarrow> nat" where
  "char_count s = length (filter (\<lambda>c. \<not> (128 \<le> (of_char c :: nat) \<and> (of_char c :: nat) < 192)) s)"

definition too_long :: "nat \<Rightarrow> error" where
  "too_long n = Error (''value too long for type character varying('' @ show_nat n @ '')'')"

definition violates_check :: "string \<Rightarrow> error" where
  "violates_check column =
     Error (''new row for relation '' @ double_quote @ ''calendar_events'' @ double_quote @
            '' violates check constraint '' @ double_quote @ ''calendar_events_'' @ column @
            ''_check'' @ double_quote)"

definition schemaRejects :: "CreateEventData \<Rightarrow> error option" where
  "schemaRejects eventData =
     (if char_count (eventId eventData) > 255 then Some (too_long 255)
      else if char_count (d_summary eventData) > 500 then Some (too_long 500)
      else if eventType eventData \<notin> set [''WORK'', ''PERSONAL'', ''FREE'']
      then Some (violates_check ''event_type'')
      else if d_status eventData \<notin> set [''confirmed'', ''tentative'', ''cancelled'']
      then Some (violates_check ''status'')
      else None)"

text \<open>
  \<open>markAsCancelled\<close>: the \<open>UPDATE\<close> touches every row with the key; when it returns no
  row, \<open>createFromDatabaseRow(undefined)\<close> throws a \<open>TypeError\<close> at \<open>row.id\<close>.
\<close>

definition markAsCancelled :: "timestamp \<Rightarrow> table \<Rightarrow> int \<Rightarrow> string \<Rightarrow> error + table \<times> CalendarEvent" where
  "markAsCancelled now db uid eid =
     (let db' = map (\<lambda>r. if has_key uid eid r
                          then r \<lparr> status := EventStatus_value CANCELLED, last_modified := Some now \<rparr>
                          else r) db
      in case find (has_key uid eid) db' of
           None \<Rightarrow> Inl (Error (''Cannot read properties of undefined (reading '' @ apostrophe @
                               ''id'' @ apostrophe @ '')''))
         | Some row \<Rightarrow> Inr (db', row))"

section \<open>The event factory (CalendarEventFactory)\<close>

text \<open>
  \<open>String.prototype.toLowerCase\<close> belongs to the language, with its Unicode case
  mapping: \<open>categorizeEvent\<close> takes it as the parameter \<open>toLowerCase\<close>. On a text of
  ASCII characters it is \<open>ascii_lower\<close>.
\<close>

definition lower_char :: "char \<Rightarrow> char" where
  "lower_char c =
     (let n = (of_char c :: nat) in if 65 \<le> n \<and> n \<le> 90 then char_of (n + 32) else c)"

definition ascii_lower :: "string \<Rightarrow> string" where
  "ascii_lower s = map lower_char s"

text \<open>\<open>text.includes(keyword)\<close>: the keyword occurs as a contiguous part of the text.\<close>

fun js_includes :: "string \<Rightarrow> string \<Rightarrow> bool" where
  "js_includes [] keyword = (keyword = [])"
| "js_includes (c # cs) keyword = (prefix keyword (c # cs) \<or> js_includes cs keyword)"

definition workKeywords :: "string list" where
  "workKeywords =
     [''meeting'', ''call'', ''interview'', ''presentation'', ''conference'', ''workshop'',
      ''training'', ''review'', ''planning'', ''standup'', ''sprint'', ''demo'', ''client'',
      ''business'', ''work'', ''office'', ''team'', ''project'', ''deadline'', ''deliverable'']"

definition personalKeywords :: "string list" where
  "personalKeywords =
     [''birthday'', ''anniversary'', ''dinner'', ''lunch'', ''coffee'', ''date'', ''party'',
      ''celebration'', ''family'', ''friend'', ''personal'', ''vacation'', ''holiday'',
      ''doctor'', ''dentist'', ''appointment'', ''gym'', ''workout'', ''exercise'']"

definition categorizeEvent :: "(string \<Rightarrow> string) \<Rightarrow> string \<Rightarrow> string option \<Rightarrow> EventType" where
  "categorizeEvent toLowerCase title desc =
     (let text = toLowerCase (title @ '' '' @ js_or desc [])
      in if list_ex (\<lambda>keyword. js_includes text keyword) workKeywords then WORK
         else if list_ex (\<lambda>keyword. js_includes text keyword) personalKeywords then PERSONAL
         else UNKNOWN)"

section \<open>The calendar service (services/calendarService.ts)\<close>

text \<open>
  A user as \<open>UserModel.findById\<close> returns it, with the fields the services read. The
  lookup is an external collaborator: its outcome is \<open>Inl\<close> when the query throws,
  \<open>Inr None\<close> when there is no such user.
\<close>

record User =
  uid :: int
  name :: string
  automation_enabled :: bool
  daily_summary_time :: string
  timezone :: "string option"
  whatsapp_recipients :: "string list option"

definition getCalendarClient :: "error + User option \<Rightarrow> error + User" where
  "getCalendarClient found =
     (case found of
        Inl e \<Rightarrow> Inl e
      | Inr None \<Rightarrow> Inl (Error ''User not found'')
      | Inr (Some user) \<Rightarrow> Inr user)"

text \<open>
  \<open>fetchEvents\<close>: \<open>listed\<close> is the outcome of \<open>calendar.events.list\<close> for the window,
  \<open>Inl\<close> when the request throws and \<open>Inr None\<close> when \<open>response.data.items\<close> is
  undefined. Every exception becomes the result \<open>null\<close>, here \<open>None\<close>.
\<close>

definition fetchEvents :: "error + User option \<Rightarrow> error + GoogleEvent list option \<Rightarrow> GoogleEvent list option" where
  "fetchEvents found listed =
     (case getCalendarClient found of
        Inl e \<Rightarrow> None
      | Inr calendar \<Rightarrow>
          (case listed of
             Inl e \<Rightarrow> None
           | Inr items \<Rightarrow> Some (js_or_list items)))"

text \<open>
  The record \<open>syncEvents\<close> builds for one event (lines 57 to 69); \<open>now\<close> stands for
  \<open>new Date()\<close>.
\<close>

definition syncEventData :: "timestamp \<Rightarrow> int \<Rightarrow> GoogleEvent \<Rightarrow> CreateEventData" where
  "syncEventData now u event =
     \<lparr> userId = u,
       eventId = g_id event,
       d_summary = js_or (g_summary event) ''No Title'',
       d_description = Present (js_or (g_description event) []),
       d_location = Present (js_or (g_location event) []),
       startTime = js_or_time (g_start_dateTime event) (js_or_time (g_start_date event) now),
       endTime = js_or_time (g_end_dateTime event) (js_or_time (g_end_date event) now),
       allDay = (g_start_dateTime event = None),
       eventType = ''WORK'',
       d_status = js_or (g_status event) ''confirmed'',
       d_attendees = Some (js_or_list (g_attendees event)) \<rparr>"

text \<open>
  \<open>syncEvents\<close> upserts the events in order; what an upsert throws is logged and thrown
  again (lines 75 to 78), the rows written before stay. The result is the outcome and the
  table.
\<close>

fun syncEvents :: "(CreateEventData \<Rightarrow> error option) \<Rightarrow> timestamp \<Rightarrow> table \<Rightarrow> int \<Rightarrow> GoogleEvent list \<Rightarrow> (error + unit) \<times> table" where
  "syncEvents rejects now db u [] = (Inr (), db)"
| "syncEvents rejects now db u (event # events) =
     (case upsert rejects now db (syncEventData now u event) of
        Inl err \<Rightarrow> (Inl err, db)
      | Inr (db', row) \<Rightarrow> syncEvents rejects now db' u events)"

subsection \<open>Change detection\<close>

datatype Change = Added GoogleEvent | Modified GoogleEvent | Deleted CalendarEvent

text \<open>The comparison of lines 252 to 258.\<close>

definition contentChanged :: "timestamp \<Rightarrow> CalendarEvent \<Rightarrow> GoogleEvent \<Rightarrow> bool" where
  "contentChanged now storedEvent googleEvent \<longleftrightarrow>
     Some (summary storedEvent) \<noteq> g_summary googleEvent \<or>
     description storedEvent \<noteq> Some (js_or (g_description googleEvent) []) \<or>
     location storedEvent \<noteq> Some (js_or (g_location googleEvent) []) \<or>
     start_time storedEvent \<noteq>
       js_or_time (g_start_dateTime googleEvent) (js_or_time (g_start_date googleEvent) now) \<or>
     end_time storedEvent \<noteq>
       js_or_time (g_end_dateTime googleEvent) (js_or_time (g_end_date googleEvent) now) \<or>
     status storedEvent \<noteq> js_or (g_status googleEvent) ''confirmed''"

text \<open>The body of the first loop of \<open>checkForChanges\<close>: the records one event adds.\<close>

definition checkEvent :: "timestamp \<Rightarrow> CalendarEvent list \<Rightarrow> GoogleEvent \<Rightarrow> Change list" where
  "checkEvent now storedEvents googleEvent =
     (case find (\<lambda>e. event_id e = g_id googleEvent) storedEvents of
        None \<Rightarrow> [Added googleEvent]
      | Some storedEvent \<Rightarrow>
          (case (g_updated googleEvent, last_modified storedEvent) of
             (Some googleUpdated, Some storedUpdated) \<Rightarrow>
               if googleUpdated > storedUpdated
               then (let timeDiff = googleUpdated - storedUpdated;
                         minutesDiff = (of_int timeDiff :: rat) / (1000 * 60)
                     in if minutesDiff > 5
                        then (if contentChanged now storedEvent googleEvent
                              then [Modified googleEvent] else [])
                        else [])
               else []
           | _ \<Rightarrow> []))"

fun newAndModified :: "timestamp \<Rightarrow> CalendarEvent list \<Rightarrow> GoogleEvent list \<Rightarrow> Change list" where
  "newAndModified now storedEvents [] = []"
| "newAndModified now storedEvents (googleEvent # rest) =
     checkEvent now storedEvents googleEvent @ newAndModified now storedEvents rest"

fun deletedEvents :: "GoogleEvent list \<Rightarrow> CalendarEvent list \<Rightarrow> Change list" where
  "deletedEvents googleEvents [] = []"
| "deletedEvents googleEvents (storedEvent # rest) =
     (case find (\<lambda>e. g_id e = event_id storedEvent) googleEvents of
        None \<Rightarrow> Deleted storedEvent # deletedEvents googleEvents rest
      | Some googleEvent \<Rightarrow> deletedEvents googleEvents rest)"

text \<open>
  \<open>checkForChanges\<close>: \<open>fetched\<close> is the result of \<open>fetchEvents\<close>, \<open>now\<close> the clock
  (\<open>today\<close> in the source, also taken for the later \<open>new Date()\<close> defaults).
\<close>

definition checkForChanges :: "timestamp \<Rightarrow> GoogleEvent list option \<Rightarrow> table \<Rightarrow> int \<Rightarrow> Change list" where
  "checkForChanges now fetched db u =
     (case fetched of
        None \<Rightarrow> []
      | Some googleEvents \<Rightarrow>
          (let tomorrow = now + 24 * 60 * 60 * 1000;
               storedEvents = findByUserIdAndDateRange db u now tomorrow
           in newAndModified now storedEvents googleEvents @
              deletedEvents googleEvents storedEvents))"

subsection \<open>The daily summary\<close>

text \<open>
  What depends on the process's locale and time zone is a parameter: \<open>dateLabel\<close> is
  \<open>toLocaleDateString\<close> with weekday, month and day, \<open>timeLabel\<close> is
  \<open>toLocaleTimeString\<close> with two-digit hour and minute, \<open>shortTimeLabel\<close> the same
  with a numeric hour, \<open>startOfDay\<close> and \<open>endOfDay\<close> are local midnight and 23:59:59 of
  the day of the given instant.
\<close>

record Locale =
  dateLabel :: "timestamp \<Rightarrow> string"
  timeLabel :: "timestamp \<Rightarrow> string"
  shortTimeLabel :: "timestamp \<Rightarrow> string"
  startOfDay :: "timestamp \<Rightarrow> timestamp"
  endOfDay :: "timestamp \<Rightarrow> timestamp"

record Block =
  block_start :: timestamp
  block_end :: timestamp

record DaySummary =
  s_summary :: string
  eventCount :: nat
  firstMeeting :: "timestamp option"
  lastMeeting :: "timestamp option"

definition nl :: string where
  "nl = [CHR 0x0A]"

definition en_dash :: string where
  "en_dash = [CHR 0xE2, CHR 0x80, CHR 0x93]"

definition calendar_sign :: string where
  "calendar_sign = [CHR 0xF0, CHR 0x9F, CHR 0x93, CHR 0x85]"

definition clock_sign :: string where
  "clock_sign = [CHR 0xF0, CHR 0x9F, CHR 0x95, CHR 0x90]"

definition memo_sign :: string where
  "memo_sign = [CHR 0xF0, CHR 0x9F, CHR 0x93, CHR 0x9D]"

definition pin_sign :: string where
  "pin_sign = [CHR 0xF0, CHR 0x9F, CHR 0x93, CHR 0x8D]"

definition alarm_sign :: string where
  "alarm_sign = [CHR 0xE2, CHR 0x8F, CHR 0xB0]"

definition free_sign :: string where
  "free_sign = [CHR 0xF0, CHR 0x9F, CHR 0x86, CHR 0x93]"

definition scheduleHeader :: "Locale \<Rightarrow> User \<Rightarrow> timestamp \<Rightarrow> string" where
  "scheduleHeader L user today =
     name user @ apostrophe @ ''s Schedule '' @ en_dash @ '' '' @ dateLabel L today @ nl @ nl"

definition timeRange :: "Locale \<Rightarrow> timestamp \<Rightarrow> timestamp \<Rightarrow> string" where
  "timeRange L a b = timeLabel L a @ '' - '' @ timeLabel L b"

text \<open>
  The loop of lines 143 to 155 on the state \<open>(freeBlocks, currentTime)\<close>; a timed event
  has a start, a missing end defaults to \<open>new Date()\<close>.
\<close>

fun freeBlocksLoop :: "timestamp \<Rightarrow> Block list \<times> timestamp \<Rightarrow> GoogleEvent list \<Rightarrow> Block list \<times> timestamp" where
  "freeBlocksLoop now (freeBlocks, currentTime) [] = (freeBlocks, currentTime)"
| "freeBlocksLoop now (freeBlocks, currentTime) (event # rest) =
     (let eventStart = js_or_time (g_start_dateTime event) now;
          eventEnd = js_or_time (g_end_dateTime event) now
      in freeBlocksLoop now
           (if currentTime < eventStart
            then freeBlocks @ [\<lparr> block_start = currentTime, block_end = eventStart \<rparr>]
            else freeBlocks,
            eventEnd)
           rest)"

definition computeFreeBlocks :: "timestamp \<Rightarrow> timestamp \<Rightarrow> timestamp \<Rightarrow> GoogleEvent list \<Rightarrow> Block list" where
  "computeFreeBlocks now dayStart dayEnd timedEvents =
     (case freeBlocksLoop now ([], dayStart) timedEvents of
        (freeBlocks, currentTime) \<Rightarrow>
          if currentTime < dayEnd
          then freeBlocks @ [\<lparr> block_start = currentTime, block_end = dayEnd \<rparr>]
          else freeBlocks)"

text \<open>One step of the \<open>forEach\<close> of the BUSY section, on the text so far.\<close>

definition addBusyEvent :: "Locale \<Rightarrow> timestamp \<Rightarrow> GoogleEvent \<Rightarrow> string \<Rightarrow> string" where
  "addBusyEvent L now event text =
     (let timeStr = timeRange L (js_or_time (g_start_dateTime event) now)
                                (js_or_time (g_end_dateTime event) now);
          place = (if js_or (g_location event) [] \<noteq> []
                   then nl @ pin_sign @ '' '' @ js_show (g_location event) else [])
      in text @ clock_sign @ '' '' @ timeStr @ nl @
         memo_sign @ '' '' @ js_show (g_summary event) @ place @ nl @ nl)"

text \<open>One step of the \<open>forEach\<close> of the FREE section (lines 176 to 186).\<close>

definition addFreeBlock :: "Locale \<Rightarrow> Block \<Rightarrow> string \<Rightarrow> string" where
  "addFreeBlock L block text =
     (let timeStr = timeRange L (block_start block) (block_end block);
          durationMinutes = (of_int (block_end block - block_start block) :: rat) / (1000 * 60)
      in if durationMinutes \<ge> 15 then text @ free_sign @ '' '' @ timeStr @ nl else text)"

definition addFreeSection :: "Locale \<Rightarrow> Block list \<Rightarrow> string \<Rightarrow> string" where
  "addFreeSection L freeBlocks text =
     (if length freeBlocks > 0
      then fold (addFreeBlock L) freeBlocks (text @ alarm_sign @ '' FREE:'' @ nl) @ nl
      else text)"

definition failedSummary :: DaySummary where
  "failedSummary =
     \<lparr> s_summary = ''Failed to retrieve today'' @ apostrophe @ ''s schedule.'',
       eventCount = 0, firstMeeting = None, lastMeeting = None \<rparr>"

text \<open>
  \<open>getTodaySummary\<close>: \<open>found\<close> is the outcome of the user lookup, \<open>fetched\<close> the result
  of \<open>fetchEvents\<close> for the next 24 hours. A missing user is thrown and caught inside.
  \<open>timedEventsOf\<close> is the constant \<open>timedEvents\<close> of lines 108 to 114.
\<close>

definition timedEventsOf :: "GoogleEvent list \<Rightarrow> GoogleEvent list" where
  "timedEventsOf events =
     sort_key (\<lambda>e. js_or_time (g_start_dateTime e) 0)
       (filter (\<lambda>e. g_start_dateTime e \<noteq> None) events)"

definition getTodaySummary :: "Locale \<Rightarrow> timestamp \<Rightarrow> error + User option \<Rightarrow> GoogleEvent list option \<Rightarrow> DaySummary" where
  "getTodaySummary L now found fetched =
     (case found of
        Inl e \<Rightarrow> failedSummary
      | Inr None \<Rightarrow> failedSummary
      | Inr (Some user) \<Rightarrow>
          if js_or_list fetched = []
          then \<lparr> s_summary = scheduleHeader L user now @ ''No events scheduled for today.'',
                 eventCount = 0, firstMeeting = None, lastMeeting = None \<rparr>
          else
            (let timedEvents = timedEventsOf (js_or_list fetched)
             in if timedEvents = []
                then \<lparr> s_summary = scheduleHeader L user now @ ''No timed events scheduled for today.'',
                       eventCount = 0, firstMeeting = None, lastMeeting = None \<rparr>
                else
                  (let freeBlocks = computeFreeBlocks now (startOfDay L now) (endOfDay L now) timedEvents;
                       busy = fold (addBusyEvent L now) timedEvents
                                (scheduleHeader L user now @ calendar_sign @ '' BUSY:'' @ nl);
                       free = addFreeSection L freeBlocks busy
                   in \<lparr> s_summary = free @ ''Total appointments: '' @ show_nat (length timedEvents),
                        eventCount = length timedEvents,
                        firstMeeting = g_start_dateTime (hd timedEvents),
                        lastMeeting = g_end_dateTime (last timedEvents) \<rparr>)))"

text \<open>
  The free-block scan as the specification words it, for comparison with
  \<open>freeBlocksLoop\<close>: the cursor advances to the maximum of itself and the event's end.
\<close>

fun freeBlocksLoop_spec :: "timestamp \<Rightarrow> Block list \<times> timestamp \<Rightarrow> GoogleEvent list \<Rightarrow> Block list \<times> timestamp" where
  "freeBlocksLoop_spec now (freeBlocks, cursor) [] = (freeBlocks, cursor)"
| "freeBlocksLoop_spec now (freeBlocks, cursor) (event # rest) =
     (let eventStart = js_or_time (g_start_dateTime event) now;
          eventEnd = js_or_time (g_end_dateTime event) now
      in freeBlocksLoop_spec now
           (if cursor < eventStart
            then freeBlocks @ [\<lparr> block_start = cursor, block_end = eventStart \<rparr>]
            else freeBlocks,
            max cursor eventEnd)
           rest)"

section \<open>The notification dispatcher (services/whatsappService.ts)\<close>

text \<open>
  The channel is the Twilio endpoint: \<open>post to body\<close> tells whether \<open>axios.post\<close>
  resolves for that request; the requests issued are appended to the outbox.
\<close>

record Credentials =
  accountSid :: string
  authToken :: string
  fromNumber :: string

type_synonym outbox = "(string \<times> string) list"

definition sendMessage :: "Credentials \<Rightarrow> (string \<Rightarrow> string \<Rightarrow> bool) \<Rightarrow> outbox \<Rightarrow> string \<Rightarrow> string \<Rightarrow> bool \<times> outbox" where
  "sendMessage creds post sent recipient message =
     (if accountSid creds = [] \<or> authToken creds = [] \<or> fromNumber creds = []
      then (False, sent)
      else
        (let formattedRecipient =
               (if prefix ''whatsapp:'' recipient then recipient else ''whatsapp:'' @ recipient)
         in (post formattedRecipient message, sent @ [(formattedRecipient, message)])))"

text \<open>The outcome of a promise under \<open>Promise.allSettled\<close>.\<close>

datatype 'a settled = Fulfilled 'a | Rejected error

text \<open>
  \<open>Promise.allSettled(recipientArray.map(recipient => this.sendMessage(recipient, message)))\<close>:
  the calls start in the order of the array; \<open>sendMessage\<close> catches what it throws, so each
  promise is fulfilled.
\<close>

fun sendToAll :: "Credentials \<Rightarrow> (string \<Rightarrow> string \<Rightarrow> bool) \<Rightarrow> outbox \<Rightarrow> string list \<Rightarrow> string \<Rightarrow> bool settled list \<times> outbox" where
  "sendToAll creds post sent [] message = ([], sent)"
| "sendToAll creds post sent (recipient # rest) message =
     (case sendMessage creds post sent recipient message of
        (ok, sent1) \<Rightarrow>
          (case sendToAll creds post sent1 rest message of
             (results, sent2) \<Rightarrow> (Fulfilled ok # results, sent2)))"

definition successCount :: "bool settled list \<Rightarrow> nat" where
  "successCount results = length (filter (\<lambda>result. result = Fulfilled True) results)"

text \<open>The argument \<open>recipients: string | string[]\<close>.\<close>

datatype Recipients = Single string | Multiple "string list"

fun recipientArray :: "Recipients \<Rightarrow> string list" where
  "recipientArray (Single recipient) = [recipient]"
| "recipientArray (Multiple recipients) = recipients"

definition dailySummaryMessage :: "string \<Rightarrow> string" where
  "dailySummaryMessage text = calendar_sign @ '' *Daily Schedule Summary*'' @ nl @ nl @ text"

definition WhatsAppService_sendDailySummary :: "Credentials \<Rightarrow> (string \<Rightarrow> string \<Rightarrow> bool) \<Rightarrow> outbox \<Rightarrow> Recipients \<Rightarrow> string \<Rightarrow> bool \<times> outbox" where
  "WhatsAppService_sendDailySummary creds post sent recipients text =
     (case sendToAll creds post sent (recipientArray recipients) (dailySummaryMessage text) of
        (results, sent') \<Rightarrow> (successCount results > 0, sent'))"

definition cycle_sign :: string where
  "cycle_sign = [CHR 0xF0, CHR 0x9F, CHR 0x94, CHR 0x84]"

definition plus_sign :: string where
  "plus_sign = [CHR 0xE2, CHR 0x9E, CHR 0x95]"

definition pencil_sign :: string where
  "pencil_sign = [CHR 0xE2, CHR 0x9C, CHR 0x8F, CHR 0xEF, CHR 0xB8, CHR 0x8F]"

definition cross_sign :: string where
  "cross_sign = [CHR 0xE2, CHR 0x9D, CHR 0x8C]"

definition warning_sign :: string where
  "warning_sign = [CHR 0xE2, CHR 0x9A, CHR 0xA0, CHR 0xEF, CHR 0xB8, CHR 0x8F]"

text \<open>One step of the loop of lines 128 to 149, on the message so far.\<close>

fun addChange :: "Locale \<Rightarrow> Change \<Rightarrow> string \<Rightarrow> string" where
  "addChange L (Added event) message =
     message @ plus_sign @ '' *New Event:* '' @ js_show (g_summary event) @ nl @
     (case g_start_dateTime event of
        Some t \<Rightarrow> alarm_sign @ '' Time: '' @ shortTimeLabel L t @ nl
      | None \<Rightarrow> []) @ nl"
| "addChange L (Modified event) message =
     message @ pencil_sign @ '' *Modified Event:* '' @ js_show (g_summary event) @ nl @ nl"
| "addChange L (Deleted row) message =
     message @ cross_sign @ '' *Cancelled Event:* '' @ summary row @ nl @ nl"

definition changeMessage :: "Locale \<Rightarrow> Change list \<Rightarrow> string" where
  "changeMessage L changes =
     fold (addChange L) changes (cycle_sign @ '' *Calendar Changes Detected*'' @ nl @ nl)"

definition sendChangeNotification :: "Locale \<Rightarrow> Credentials \<Rightarrow> (string \<Rightarrow> string \<Rightarrow> bool) \<Rightarrow> outbox \<Rightarrow> Recipients \<Rightarrow> Change list \<Rightarrow> bool \<times> outbox" where
  "sendChangeNotification L creds post sent recipients changes =
     (case sendToAll creds post sent (recipientArray recipients) (changeMessage L changes) of
        (results, sent') \<Rightarrow> (successCount results > 0, sent'))"

definition sendErrorNotification :: "Credentials \<Rightarrow> (string \<Rightarrow> string \<Rightarrow> bool) \<Rightarrow> outbox \<Rightarrow> string \<Rightarrow> string \<Rightarrow> bool \<times> outbox" where
  "sendErrorNotification creds post sent recipient errorMessage =
     sendMessage creds post sent recipient
       (warning_sign @ '' *System Error*'' @ nl @ nl @ ''An error occurred: '' @ errorMessage @
        nl @ nl @ ''Please check your settings or contact support.'')"

section \<open>The automation service (services/automationService.ts)\<close>

text \<open>
  The collaborators of one call: the user lookup, the remote calendar, the database of the
  snapshot store, the channel, the environment variable \<open>DEFAULT_WHATSAPP_RECIPIENT\<close>,
  the locale and the clock.
\<close>

record Env =
  env_findById :: "int \<Rightarrow> error + User option"
  env_listed :: "int \<Rightarrow> error + GoogleEvent list option"
  env_store_rejects :: "CreateEventData \<Rightarrow> error option"
  env_credentials :: Credentials
  env_post :: "string \<Rightarrow> string \<Rightarrow> bool"
  env_default_recipient :: "string option"
  env_locale :: Locale
  env_now :: timestamp

text \<open>\<open>user.whatsapp_recipients || [process.env['DEFAULT_WHATSAPP_RECIPIENT'] || '']\<close>\<close>

definition recipientsOf :: "Env \<Rightarrow> User \<Rightarrow> string list" where
  "recipientsOf env user =
     (case whatsapp_recipients user of
        Some recipients \<Rightarrow> recipients
      | None \<Rightarrow> [js_or (env_default_recipient env) []])"

subsection \<open>The per-user timers\<close>

text \<open>
  A task of the cron library with the user its callback serves. The scheduler owns the
  map \<open>jobs\<close>; \<open>running\<close> lists the tasks created and not stopped, \<open>created\<close> counts the
  tasks created so far. The map is keyed by the user id (\<open>toString\<close> is injective).
\<close>

record ScheduledTask =
  task_id :: nat
  task_user :: int
  task_time :: string

record Scheduler =
  jobs :: "int \<rightharpoonup> ScheduledTask"
  running :: "ScheduledTask list"
  created :: nat

definition newScheduler :: Scheduler where
  "newScheduler = \<lparr> jobs = Map.empty, running = [], created = 0 \<rparr>"

definition stopUserAutomation :: "Scheduler \<Rightarrow> int \<Rightarrow> Scheduler" where
  "stopUserAutomation st u =
     (case jobs st u of
        None \<Rightarrow> st
      | Some job \<Rightarrow>
          st \<lparr> running := filter (\<lambda>t. task_id t \<noteq> task_id job) (running st),
               jobs := (jobs st)(u := None) \<rparr>)"

text \<open>
  \<open>startUserAutomation\<close>: \<open>found\<close> is the outcome of the user lookup; \<open>accepted\<close> tells
  whether lines 28 to 35 complete, that is, whether the time splits and the cron library
  accepts the expression instead of throwing. Every exception is caught at line 39.
\<close>

definition startUserAutomation :: "error + User option \<Rightarrow> bool \<Rightarrow> Scheduler \<Rightarrow> int \<Rightarrow> Scheduler" where
  "startUserAutomation found accepted st u =
     (case found of
        Inl e \<Rightarrow> st
      | Inr None \<Rightarrow> st
      | Inr (Some user) \<Rightarrow>
          if \<not> automation_enabled user then st
          else
            (let st1 = stopUserAutomation st u
             in if \<not> accepted then st1
                else
                  (let job = \<lparr> task_id = created st1, task_user = u,
                               task_time = daily_summary_time user \<rparr>
                   in st1 \<lparr> jobs := (jobs st1)(u \<mapsto> job),
                            running := running st1 @ [job],
                            created := Suc (created st1) \<rparr>)))"

text \<open>The timers running for a user.\<close>

definition activeTimers :: "Scheduler \<Rightarrow> int \<Rightarrow> ScheduledTask list" where
  "activeTimers st u = filter (\<lambda>t. task_user t = u) (running st)"

text \<open>The states the scheduler reaches from its constructor by starting and stopping.\<close>

inductive reachable :: "Scheduler \<Rightarrow> bool" where
  init: "reachable newScheduler"
| start: "reachable st \<Longrightarrow> reachable (startUserAutomation found accepted st u)"
| stop: "reachable st \<Longrightarrow> reachable (stopUserAutomation st u)"

subsection \<open>Sending the daily summary\<close>

text \<open>The \<open>try\<close> block of \<open>sendDailySummary\<close>, lines 57 to 80.\<close>

definition sendDailySummary_try :: "Env \<Rightarrow> outbox \<Rightarrow> int \<Rightarrow> (error + unit) \<times> outbox" where
  "sendDailySummary_try env sent u =
     (case env_findById env u of
        Inl e \<Rightarrow> (Inl e, sent)
      | Inr None \<Rightarrow> (Inr (), sent)
      | Inr (Some user) \<Rightarrow>
          if \<not> automation_enabled user then (Inr (), sent)
          else
            (let report = getTodaySummary (env_locale env) (env_now env) (env_findById env u)
                            (fetchEvents (env_findById env u) (env_listed env u));
                 recipients = recipientsOf env user
             in case WhatsAppService_sendDailySummary (env_credentials env) (env_post env) sent
                       (Multiple recipients) (s_summary report) of
                  (result, sent') \<Rightarrow> (Inr (), sent')))"

definition errorMessageOf :: "error \<Rightarrow> string" where
  "errorMessageOf e = (case e of Error m \<Rightarrow> m | NotAnError \<Rightarrow> ''Unknown error occurred'')"

text \<open>The inner \<open>try\<close> block of the handler, lines 85 to 92.\<close>

definition sendDailySummary_notify :: "Env \<Rightarrow> outbox \<Rightarrow> int \<Rightarrow> error \<Rightarrow> (error + unit) \<times> outbox" where
  "sendDailySummary_notify env sent u err =
     (case env_findById env u of
        Inl e \<Rightarrow> (Inl e, sent)
      | Inr None \<Rightarrow> (Inr (), sent)
      | Inr (Some user) \<Rightarrow>
          (let errorMessage = errorMessageOf err;
               recipients = recipientsOf env user
           in case recipients of
                [] \<Rightarrow> (Inr (), sent)
              | first # others \<Rightarrow>
                  if first = [] then (Inr (), sent)
                  else (case sendErrorNotification (env_credentials env) (env_post env) sent
                               first errorMessage of
                          (ok, sent') \<Rightarrow> (Inr (), sent'))))"

definition AutomationService_sendDailySummary :: "Env \<Rightarrow> outbox \<Rightarrow> int \<Rightarrow> (error + unit) \<times> outbox" where
  "AutomationService_sendDailySummary env sent u =
     (case sendDailySummary_try env sent u of
        (Inr done, sent1) \<Rightarrow> (Inr done, sent1)
      | (Inl err, sent1) \<Rightarrow>
          (case sendDailySummary_notify env sent1 u err of
             (Inr done, sent2) \<Rightarrow> (Inr (), sent2)
           | (Inl notifyError, sent2) \<Rightarrow> (Inr (), sent2)))"

record TriggerResult =
  r_success :: bool
  r_message :: "string option"
  r_error :: "string option"

definition triggerDailySummary :: "Env \<Rightarrow> outbox \<Rightarrow> int \<Rightarrow> TriggerResult \<times> outbox" where
  "triggerDailySummary env sent u =
     (case AutomationService_sendDailySummary env sent u of
        (Inr done, sent') \<Rightarrow>
          (\<lparr> r_success = True, r_message = Some ''Daily summary sent successfully'',
             r_error = None \<rparr>, sent')
      | (Inl err, sent') \<Rightarrow>
          (\<lparr> r_success = False, r_message = None, r_error = Some (errorMessageOf err) \<rparr>, sent'))"

subsection \<open>Polling for changes\<close>

text \<open>
  \<open>processChanges\<close>: one \<open>try\<close> surrounds the loop (lines 157 to 179), so the first
  exception, of a sync or of a cancellation, ends it; the changes after it are not
  processed. The exception is logged and not thrown again.
\<close>

fun processChanges :: "(CreateEventData \<Rightarrow> error option) \<Rightarrow> timestamp \<Rightarrow> table \<Rightarrow> int \<Rightarrow> Change list \<Rightarrow> table" where
  "processChanges rejects now db u [] = db"
| "processChanges rejects now db u (Added event # changes) =
     (case syncEvents rejects now db u [event] of
        (Inl err, db') \<Rightarrow> db'
      | (Inr synced, db') \<Rightarrow> processChanges rejects now db' u changes)"
| "processChanges rejects now db u (Modified event # changes) =
     (case syncEvents rejects now db u [event] of
        (Inl err, db') \<Rightarrow> db'
      | (Inr synced, db') \<Rightarrow> processChanges rejects now db' u changes)"
| "processChanges rejects now db u (Deleted row # changes) =
     (case markAsCancelled now db u (event_id row) of
        Inl err \<Rightarrow> db
      | Inr (db', cancelled) \<Rightarrow> processChanges rejects now db' u changes)"

definition checkUserForChanges :: "Env \<Rightarrow> table \<times> outbox \<Rightarrow> User \<Rightarrow> table \<times> outbox" where
  "checkUserForChanges env state user =
     (case state of
        (db, sent) \<Rightarrow>
          (let changes = checkForChanges (env_now env)
                           (fetchEvents (env_findById env (uid user)) (env_listed env (uid user)))
                           db (uid user)
           in if length changes > 0
              then (case sendChangeNotification (env_locale env) (env_credentials env)
                           (env_post env) sent (Multiple (recipientsOf env user)) changes of
                      (ok, sent') \<Rightarrow>
                        (processChanges (env_store_rejects env) (env_now env) db (uid user)
                           changes, sent'))
              else (db, sent)))"

section \<open>Notions used in the statements\<close>

text \<open>The keys of the rows of a table, in order.\<close>

definition row_keys :: "table \<Rightarrow> (int \<times> string) list" where
  "row_keys db = map (\<lambda>r. (user_id r, event_id r)) db"

text \<open>Every row under a key is cancelled.\<close>

definition cancelled_key :: "table \<Rightarrow> int \<Rightarrow> string \<Rightarrow> bool" where
  "cancelled_key db u e \<longleftrightarrow>
     (\<forall>row\<in>set db. has_key u e row \<longrightarrow> status row = EventStatus_value CANCELLED)"

text \<open>A change that makes \<open>processChanges\<close> upsert the event with the given id.\<close>

definition touches :: "Change \<Rightarrow> string \<Rightarrow> bool" where
  "touches c e = (case c of Added g \<Rightarrow> g_id g = e | Modified g \<Rightarrow> g_id g = e | Deleted r \<Rightarrow> False)"

text \<open>A change whose processing the database does not reject.\<close>

definition storable :: "(CreateEventData \<Rightarrow> error option) \<Rightarrow> timestamp \<Rightarrow> int \<Rightarrow> Change \<Rightarrow> bool" where
  "storable rejects now u c =
     (case c of
        Added g \<Rightarrow> rejects (syncEventData now u g) = None
      | Modified g \<Rightarrow> rejects (syncEventData now u g) = None
      | Deleted r \<Rightarrow> True)"

text \<open>The recipient as line 78 of the dispatcher formats it, and the check of line 72.\<close>

definition formatRecipient :: "string \<Rightarrow> string" where
  "formatRecipient recipient =
     (if prefix ''whatsapp:'' recipient then recipient else ''whatsapp:'' @ recipient)"

definition configured :: "Credentials \<Rightarrow> bool" where
  "configured creds \<longleftrightarrow> accountSid creds \<noteq> [] \<and> authToken creds \<noteq> [] \<and> fromNumber creds \<noteq> []"

text \<open>What a row stored by the sync path looks like under a key: there is one, and each has type WORK.\<close>

definition typed_WORK :: "table \<Rightarrow> int \<Rightarrow> string \<Rightarrow> bool" where
  "typed_WORK db u e \<longleftrightarrow>
     (\<exists>row\<in>set db. has_key u e row) \<and>
     (\<forall>row\<in>set db. has_key u e row \<longrightarrow> event_type row = ''WORK'')"

text \<open>
  The invariant of the scheduler: running tasks have distinct handles below \<open>created\<close>,
  each is registered under its user, and each registered task is running for its user.
\<close>

definition sched_inv :: "Scheduler \<Rightarrow> bool" where
  "sched_inv st \<longleftrightarrow>
     distinct (map task_id (running st)) \<and>
     (\<forall>t\<in>set (running st). task_id t < created st \<and> jobs st (task_user t) = Some t) \<and>
     (\<forall>u t. jobs st u = Some t \<longrightarrow> t \<in> set (running st) \<and> task_user t = u)"

section \<open>Sample data\<close>

text \<open>A stored row and a remote event for the same event id, used to run the functions.\<close>

definition sampleRow :: CalendarEvent where
  "sampleRow =
     \<lparr> user_id = 1, event_id = ''ev1'', summary = ''Standup'', description = Some [],
       location = Some [], start_time = 3600000, end_time = 7200000, all_day = False,
       event_type = ''WORK'', status = ''confirmed'', attendees = [],
       last_modified = Some 0 \<rparr>"

definition sampleEvent :: GoogleEvent where
  "sampleEvent =
     \<lparr> g_id = ''ev1'', g_summary = Some ''Standup moved'', g_description = None,
       g_location = None, g_start_dateTime = Some 3600000, g_start_date = None,
       g_end_dateTime = Some 7200000, g_end_date = None, g_status = Some ''confirmed'',
       g_updated = Some 600000, g_attendees = None \<rparr>"

definition sampleUser :: User where
  "sampleUser = \<lparr> uid = 1, name = ''Ada'', automation_enabled = True,
     daily_summary_time = ''08:00'', timezone = None,
     whatsapp_recipients = Some [''+15550001'', ''whatsapp:+15550002'', ''+15550003''] \<rparr>"

text \<open>A locale that labels an instant by its minute of the day.\<close>

definition sampleLocale :: Locale where
  "sampleLocale = \<lparr> dateLabel = (\<lambda>t. ''Thursday, January 1''),
     timeLabel = (\<lambda>t. show_nat (nat (t div 60000))),
     shortTimeLabel = (\<lambda>t. show_nat (nat (t div 60000))),
     startOfDay = (\<lambda>t. 0), endOfDay = (\<lambda>t. 86399000) \<rparr>"

text \<open>
  An environment in which user 1 exists, the remote calendar times out, the database
  enforces the constraints of the table and the channel rejects the second recipient.
\<close>

definition sampleEnv :: Env where
  "sampleEnv = \<lparr> env_findById = (\<lambda>i. if i = 1 then Inr (Some sampleUser) else Inr None),
     env_listed = (\<lambda>i. Inl (Error ''timeout'')),
     env_store_rejects = schemaRejects,
     env_credentials = \<lparr> accountSid = ''AC1'', authToken = ''tok'', fromNumber = ''whatsapp:+15550000'' \<rparr>,
     env_post = (\<lambda>to body. to \<noteq> ''whatsapp:+15550002''),
     env_default_recipient = None,
     env_locale = sampleLocale,
     env_now = 0 \<rparr>"

text \<open>The sample environment with a user lookup that throws.\<close>

definition brokenEnv :: Env where
  "brokenEnv = sampleEnv \<lparr> env_findById := (\<lambda>i. Inl (Error ''connection refused'')) \<rparr>"

text \<open>A timed event with the given id, start and end.\<close>

definition meeting :: "string \<Rightarrow> timestamp \<Rightarrow> timestamp \<Rightarrow> GoogleEvent" where
  "meeting i a b =
     \<lparr> g_id = i, g_summary = Some i, g_description = None, g_location = None,
       g_start_dateTime = Some a, g_start_date = None, g_end_dateTime = Some b,
       g_end_date = None, g_status = Some ''confirmed'', g_updated = None,
       g_attendees = None \<rparr>"

text \<open>
  A day with meetings 9:00 to 10:00, 10:14 to 11:00 and 11:15 to the end of the day: the
  gaps are of 14 and of 15 minutes.
\<close>

definition sampleDay :: "GoogleEvent list" where
  "sampleDay = [meeting ''a'' 32400000 36000000, meeting ''b'' 36840000 39600000,
                meeting ''c'' 40500000 86399000]"

text \<open>A day with a meeting 9:00 to 12:00 and, nested in it, one 10:00 to 10:30.\<close>

definition nestedDay :: "GoogleEvent list" where
  "nestedDay = [meeting ''outer'' 32400000 43200000, meeting ''inner'' 36000000 37800000]"

definition birthdayParty :: GoogleEvent where
  "birthdayParty = meeting ''ev2'' 64800000 72000000 \<lparr> g_summary := Some ''Birthday party'' \<rparr>"

text \<open>The sample environment with a remote calendar that answers with the birthday party.\<close>

definition partyEnv :: Env where
  "partyEnv = sampleEnv \<lparr> env_listed := (\<lambda>i. Inr (Some [birthdayParty])) \<rparr>"

definition disabledUser :: User where
  "disabledUser = sampleUser \<lparr> automation_enabled := False \<rparr>"

text \<open>
  An event without a title, as the sync path stores it, and a later copy of the remote
  event that differs in \<open>updated\<close> only.
\<close>

definition untitledEvent :: GoogleEvent where
  "untitledEvent = meeting ''ev3'' 3600000 7200000 \<lparr> g_summary := None, g_updated := Some 0 \<rparr>"

definition untitledRow :: CalendarEvent where
  "untitledRow =
     \<lparr> user_id = 1, event_id = ''ev3'', summary = ''No Title'', description = Some [],
       location = Some [], start_time = 3600000, end_time = 7200000, all_day = False,
       event_type = ''WORK'', status = ''confirmed'', attendees = [],
       last_modified = Some 0 \<rparr>"

definition touchedEvent :: GoogleEvent where
  "touchedEvent = untitledEvent \<lparr> g_updated := Some 600000 \<rparr>"



text \<open>An event whose title has 501 characters, and an environment that fetches it.\<close>

definition longTitleEvent :: GoogleEvent where
  "longTitleEvent =
     meeting ''ev9'' 10800000 14400000 \<lparr> g_summary := Some (replicate 501 (CHR ''x'')) \<rparr>"

definition longTitleEnv :: Env where
  "longTitleEnv = sampleEnv \<lparr> env_listed := (\<lambda>i. Inr (Some [longTitleEvent])) \<rparr>"

section \<open>The upsert of the snapshot store\<close>

lemma find_map_has_key:
  assumes "\<And>r. has_key u e r \<Longrightarrow> has_key u e (f r)"
  shows "find (has_key u e) (map (\<lambda>r. if has_key u e r then f r else r) db)
           = map_option f (find (has_key u e) db)"
  using assms by (induction db) auto

lemma has_key_updatedRow:
  "has_key u e r \<Longrightarrow> has_key u e (updatedRow now changed ed r)"
  by (simp add: has_key_def updatedRow_def)

lemma has_key_insertedRow: "has_key (userId ed) (eventId ed) (insertedRow now ed)"
  by (simp add: has_key_def insertedRow_def)

lemma find_SomeD: "find P xs = Some x \<Longrightarrow> P x \<and> x \<in> set xs"
  by (induction xs) (auto split: if_splits)

lemma upsert_cases:
  assumes "upsert rejects now db ed = Inr (db', row)"
  obtains (inserted) "rejects ed = None"
      "findByUserIdAndEventId db (userId ed) (eventId ed) = None"
      "db' = db @ [insertedRow now ed]"
  | (updated) ex where "rejects ed = None"
      "findByUserIdAndEventId db (userId ed) (eventId ed) = Some ex"
      "db' = map (\<lambda>r. if has_key (userId ed) (eventId ed) r
                       then updatedRow now (hasChanged (Some ex) ed) ed r else r) db"
  using assms by (auto simp: upsert_def Let_def split: option.splits)

lemma upsert_accepted:
  "rejects ed = None \<Longrightarrow> \<exists>db' row. upsert rejects now db ed = Inr (db', row)"
  by (simp add: upsert_def Let_def split: option.splits)


section \<open>Change detection\<close>

lemma minutes_over_five:
  "((of_int d :: rat) / (1000 * 60) > 5) \<longleftrightarrow> d > 5 * 60 * 1000"
proof -
  have "((of_int d :: rat) / (1000 * 60) > 5) \<longleftrightarrow> (of_int d :: rat) > 5 * (1000 * 60)"
    by (simp add: pos_less_divide_eq)
  also have "\<dots> \<longleftrightarrow> (of_int d :: rat) > of_int (5 * 60 * 1000)"
    by simp
  also have "\<dots> \<longleftrightarrow> d > 5 * 60 * 1000"
    by (simp only: of_int_less_iff)
  finally show ?thesis .
qed

lemma Modified_in_checkEvent:
  "Modified g \<in> set (checkEvent now stored g') \<longleftrightarrow>
     g' = g \<and>
     (\<exists>s gu su. find (\<lambda>e. event_id e = g_id g) stored = Some s \<and>
        g_updated g = Some gu \<and> last_modified s = Some su \<and>
        gu - su > 5 * 60 * 1000 \<and> contentChanged now s g)"
proof (cases "find (\<lambda>e. event_id e = g_id g') stored")
  case None
  then show ?thesis by (auto simp: checkEvent_def)
next
  case (Some s)
  show ?thesis
  proof (cases "g_updated g'")
    case None
    with Some show ?thesis by (auto simp: checkEvent_def)
  next
    case gu: (Some gu)
    show ?thesis
    proof (cases "last_modified s")
      case None
      with Some gu show ?thesis by (auto simp: checkEvent_def)
    next
      case su: (Some su)
      with Some gu show ?thesis
        by (auto simp: checkEvent_def Let_def minutes_over_five)
    qed
  qed
qed

lemma set_newAndModified:
  "set (newAndModified now stored gs) = (\<Union>g\<in>set gs. set (checkEvent now stored g))"
  by (induction gs) auto

lemma set_deletedEvents:
  "set (deletedEvents gs stored) =
     Deleted ` {s \<in> set stored. \<forall>g\<in>set gs. g_id g \<noteq> event_id s}"
  by (induction stored) (auto simp: find_None_iff split: option.splits dest: find_SomeD)

lemma deletedEvents_filter:
  "deletedEvents gs stored =
     map Deleted (filter (\<lambda>s. \<forall>g\<in>set gs. g_id g \<noteq> event_id s) stored)"
  by (induction stored) (auto simp: find_None_iff split: option.splits dest: find_SomeD)

text \<open>
  What the code does for a remote event \<open>g\<close> with the stored snapshot \<open>s\<close>: it emits
  \<open>Modified g\<close> exactly when \<open>updated\<close> is more than five minutes after \<open>last_modified\<close>
  and one of its six comparisons differs. The first of them sets the stored summary
  against the remote summary as it came, without the default that the other five apply
  and that \<open>syncEvents\<close> applied when it stored the row.
\<close>

lemma Modified_in_checkForChanges:
  assumes "find (\<lambda>e. event_id e = g_id g)
             (findByUserIdAndDateRange db u now (now + 24 * 60 * 60 * 1000)) = Some s"
  shows "Modified g \<in> set (checkForChanges now (Some gs) db u) \<longleftrightarrow>
           g \<in> set gs \<and>
           (\<exists>gu su. g_updated g = Some gu \<and> last_modified s = Some su \<and>
                    gu - su > 5 * 60 * 1000) \<and>
           (Some (summary s) \<noteq> g_summary g \<or>
            description s \<noteq> Some (js_or (g_description g) []) \<or>
            location s \<noteq> Some (js_or (g_location g) []) \<or>
            start_time s \<noteq> js_or_time (g_start_dateTime g) (js_or_time (g_start_date g) now) \<or>
            end_time s \<noteq> js_or_time (g_end_dateTime g) (js_or_time (g_end_date g) now) \<or>
            status s \<noteq> js_or (g_status g) ''confirmed'')"
proof -
  let ?stored = "findByUserIdAndDateRange db u now (now + 24 * 60 * 60 * 1000)"
  have "Modified g \<in> set (checkForChanges now (Some gs) db u) \<longleftrightarrow>
          (\<exists>g'\<in>set gs. Modified g \<in> set (checkEvent now ?stored g'))"
    by (auto simp: checkForChanges_def Let_def set_newAndModified set_deletedEvents)
  also have "\<dots> \<longleftrightarrow> g \<in> set gs \<and>
        (\<exists>gu su. g_updated g = Some gu \<and> last_modified s = Some su \<and>
                    gu - su > 5 * 60 * 1000 \<and> contentChanged now s g)"
    using assms by (auto simp: Modified_in_checkEvent)
  finally show ?thesis
    by (auto simp: contentChanged_def)
qed

text \<open>
  Claim C1 says that no record is emitted when the timestamp advanced by more than five
  minutes and every compared field is equal. An event without a title is stored with the
  summary \<open>No Title\<close>; ten minutes later the remote copy differs in \<open>updated\<close> only, the
  record the sync path would store is the same, and yet \<open>checkForChanges\<close> emits
  \<open>Modified\<close>, because line 253 compares \<open>No Title\<close> with the missing summary. Processing
  the record leaves the row as it was, so the next pass emits it again.
\<close>

theorem untitled_event_reported_modified:
  "syncEvents schemaRejects 0 [] 1 [untitledEvent] = (Inr (), [untitledRow]) \<and>
   syncEventData 600000 1 touchedEvent = syncEventData 0 1 untitledEvent \<and>
   checkForChanges 600000 (Some [touchedEvent]) [untitledRow] 1 = [Modified touchedEvent] \<and>
   processChanges schemaRejects 600000 [untitledRow] 1 [Modified touchedEvent] = [untitledRow]"
proof -
  have d: "syncEventData 600000 1 touchedEvent = syncEventData 0 1 untitledEvent"
    by (simp add: syncEventData_def touchedEvent_def untitledEvent_def meeting_def js_or_def
        js_or_time_def js_or_list_def)
  have ok: "schemaRejects (syncEventData 0 1 untitledEvent) = None"
    by (simp add: schemaRejects_def char_count_def syncEventData_def untitledEvent_def meeting_def
        js_or_def)
  have a: "syncEvents schemaRejects 0 [] 1 [untitledEvent] = (Inr (), [untitledRow])"
    using ok
    by (simp add: upsert_def Let_def findByUserIdAndEventId_def insertedRow_def)
       (simp add: syncEventData_def untitledEvent_def untitledRow_def meeting_def js_or_def
          js_or_time_def js_or_list_def)
  have c: "checkForChanges 600000 (Some [touchedEvent]) [untitledRow] 1 = [Modified touchedEvent]"
    by (simp add: checkForChanges_def Let_def findByUserIdAndDateRange_def checkEvent_def
        contentChanged_def touchedEvent_def untitledEvent_def untitledRow_def meeting_def)
  have p: "processChanges schemaRejects 600000 [untitledRow] 1 [Modified touchedEvent] = [untitledRow]"
    using ok unfolding d [symmetric]
    by (simp add: upsert_def Let_def findByUserIdAndEventId_def has_key_def hasChanged_def
          updatedRow_def d)
       (simp add: syncEventData_def untitledEvent_def untitledRow_def meeting_def js_or_def
          js_or_time_def js_or_list_def)
  from a d c p show ?thesis by simp
qed

subsection \<open>Fetch failure\<close>

lemma fetchEvents_None_iff:
  "fetchEvents found listed = None \<longleftrightarrow>
     (\<exists>e. found = Inl e) \<or> found = Inr None \<or> (\<exists>e. listed = Inl e)"
  by (auto simp: fetchEvents_def getCalendarClient_def split: sum.splits option.splits)

text \<open>
  Claim C2. The fetch fails exactly when the user lookup throws or finds nobody or the
  request throws. Then \<open>checkForChanges\<close> returns no change, in particular no
  deletion, and the polling step leaves the table and the outbox as they were. A fetch
  that succeeds with no event yields one \<open>Deleted\<close> record for each stored row of the
  user that starts in the window and is not cancelled.
\<close>

theorem fetch_failure_is_not_deletion:
  "(fetchEvents found listed = None \<longleftrightarrow>
      (\<exists>e. found = Inl e) \<or> found = Inr None \<or> (\<exists>e. listed = Inl e)) \<and>
   checkForChanges now None db u = [] \<and>
   (fetchEvents (env_findById env (uid user)) (env_listed env (uid user)) = None \<longrightarrow>
      checkUserForChanges env (db, sent) user = (db, sent)) \<and>
   checkForChanges now (Some []) db u =
     map Deleted (findByUserIdAndDateRange db u now (now + 24 * 60 * 60 * 1000)) \<and>
   (\<forall>r\<in>set db. user_id r = u \<and> now \<le> start_time r \<and> start_time r < now + 24 * 60 * 60 * 1000 \<and>
      status r \<noteq> EventStatus_value CANCELLED \<longrightarrow>
      Deleted r \<in> set (checkForChanges now (Some []) db u))"
proof -
  have a: "checkForChanges now None db u = []"
    by (simp add: checkForChanges_def)
  have b: "fetchEvents (env_findById env (uid user)) (env_listed env (uid user)) = None \<longrightarrow>
      checkUserForChanges env (db, sent) user = (db, sent)"
    by (simp add: checkUserForChanges_def checkForChanges_def)
  have c: "checkForChanges now (Some []) db u =
     map Deleted (findByUserIdAndDateRange db u now (now + 24 * 60 * 60 * 1000))"
    by (simp add: checkForChanges_def Let_def deletedEvents_filter)
  have d: "\<forall>r\<in>set db. user_id r = u \<and> now \<le> start_time r \<and> start_time r < now + 24 * 60 * 60 * 1000 \<and>
      status r \<noteq> EventStatus_value CANCELLED \<longrightarrow>
      Deleted r \<in> set (checkForChanges now (Some []) db u)"
    unfolding c by (auto simp: findByUserIdAndDateRange_def)
  show ?thesis
    apply (intro conjI)
        apply (rule fetchEvents_None_iff)
       apply (rule a)
      apply (rule b)
     apply (rule c)
    apply (rule d)
    done
qed

text \<open>The failing and the empty fetch on a table with the sample row.\<close>

theorem fetch_failure_is_not_deletion_witness:
  "fetchEvents (env_findById sampleEnv (uid sampleUser)) (env_listed sampleEnv (uid sampleUser)) = None \<and>
   checkUserForChanges sampleEnv ([sampleRow], []) sampleUser = ([sampleRow], []) \<and>
   sampleRow \<in> set [sampleRow] \<and>
   checkForChanges 0 (Some []) [sampleRow] 1 = [Deleted sampleRow]"
  using fetch_failure_is_not_deletion [of "env_findById sampleEnv (uid sampleUser)"
      "env_listed sampleEnv (uid sampleUser)" 0 "[sampleRow]" 1 sampleEnv sampleUser "[]"]
  by (simp add: sampleEnv_def sampleUser_def findByUserIdAndDateRange_def sampleRow_def)

section \<open>Soft deletion\<close>

lemma key_updatedRow:
  "user_id (updatedRow now changed ed r) = user_id r \<and>
   event_id (updatedRow now changed ed r) = event_id r"
  by (simp add: updatedRow_def)

lemma row_keys_map_update:
  assumes "\<And>r. user_id (f r) = user_id r \<and> event_id (f r) = event_id r"
  shows "row_keys (map (\<lambda>r. if P r then f r else r) db) = row_keys db"
  unfolding row_keys_def using assms by (induction db) auto

lemma row_keys_upsert:
  assumes "upsert rejects now db ed = Inr (db', row)"
  shows "prefix (row_keys db) (row_keys db')"
  using assms
proof (cases rule: upsert_cases)
  case inserted
  then show ?thesis by (simp add: row_keys_def)
next
  case (updated ex)
  then show ?thesis by (simp add: row_keys_map_update key_updatedRow)
qed

lemma row_keys_syncEvents:
  "prefix (row_keys db) (row_keys (snd (syncEvents rejects now db u es)))"
proof (induction es arbitrary: db)
  case Nil
  show ?case by simp
next
  case (Cons e es)
  show ?case
  proof (cases "upsert rejects now db (syncEventData now u e)")
    case (Inl err)
    then show ?thesis by simp
  next
    case (Inr p)
    obtain db' row where p: "p = (db', row)" by (cases p)
    have "prefix (row_keys db) (row_keys db')"
      using Inr p by (intro row_keys_upsert) simp
    also have "prefix (row_keys db') (row_keys (snd (syncEvents rejects now db' u es)))"
      by (rule Cons.IH)
    finally show ?thesis using Inr p by simp
  qed
qed

lemma markAsCancelled_Inr:
  assumes "markAsCancelled now db u e = Inr (db', row)"
  shows "db' = map (\<lambda>r. if has_key u e r
                          then r \<lparr> status := EventStatus_value CANCELLED, last_modified := Some now \<rparr>
                          else r) db"
  using assms by (auto simp: markAsCancelled_def Let_def split: option.splits)

lemma row_keys_markAsCancelled:
  assumes "markAsCancelled now db u e = Inr (db', row)"
  shows "row_keys db' = row_keys db"
  unfolding markAsCancelled_Inr [OF assms]
  by (rule row_keys_map_update) simp

lemma markAsCancelled_succeeds:
  assumes "(u, e) \<in> set (row_keys db)"
  shows "\<exists>db' row. markAsCancelled now db u e = Inr (db', row)"
proof -
  from assms obtain r where r: "r \<in> set db" "has_key u e r"
    by (auto simp: row_keys_def has_key_def)
  let ?f = "\<lambda>r. r \<lparr> status := EventStatus_value CANCELLED, last_modified := Some now \<rparr>"
  have "find (has_key u e) (map (\<lambda>r. if has_key u e r then ?f r else r) db)
          = map_option ?f (find (has_key u e) db)"
    by (rule find_map_has_key) (simp add: has_key_def)
  moreover have "find (has_key u e) db \<noteq> None"
    using r by (auto simp: find_None_iff)
  ultimately show ?thesis
    by (auto simp: markAsCancelled_def Let_def split: option.splits)
qed

lemma row_keys_processChanges:
  "prefix (row_keys db) (row_keys (processChanges rejects now db u cs))"
proof (induction rejects now db u cs rule: processChanges.induct)
  case (1 rejects now db u)
  show ?case by simp
next
  case (2 rejects now db u event changes)
  obtain res db' where s: "syncEvents rejects now db u [event] = (res, db')"
    by (cases "syncEvents rejects now db u [event]")
  have k: "prefix (row_keys db) (row_keys db')"
    using row_keys_syncEvents [of db rejects now u "[event]"] s by simp
  show ?case
  proof (cases res)
    case (Inl err)
    with s k show ?thesis by simp
  next
    case (Inr ok)
    have "prefix (row_keys db') (row_keys (processChanges rejects now db' u changes))"
      using s Inr by (intro 2) simp_all
    with k have "prefix (row_keys db) (row_keys (processChanges rejects now db' u changes))"
      by (rule prefix_order.trans)
    with s Inr show ?thesis by simp
  qed
next
  case (3 rejects now db u event changes)
  obtain res db' where s: "syncEvents rejects now db u [event] = (res, db')"
    by (cases "syncEvents rejects now db u [event]")
  have k: "prefix (row_keys db) (row_keys db')"
    using row_keys_syncEvents [of db rejects now u "[event]"] s by simp
  show ?case
  proof (cases res)
    case (Inl err)
    with s k show ?thesis by simp
  next
    case (Inr ok)
    have "prefix (row_keys db') (row_keys (processChanges rejects now db' u changes))"
      using s Inr by (intro 3) simp_all
    with k have "prefix (row_keys db) (row_keys (processChanges rejects now db' u changes))"
      by (rule prefix_order.trans)
    with s Inr show ?thesis by simp
  qed
next
  case (4 rejects now db u row changes)
  show ?case
  proof (cases "markAsCancelled now db u (event_id row)")
    case (Inl e)
    then show ?thesis by simp
  next
    case (Inr p)
    obtain db' c where p: "p = (db', c)" by (cases p)
    have m: "markAsCancelled now db u (event_id row) = Inr (db', c)"
      using Inr p by simp
    have "prefix (row_keys db') (row_keys (processChanges rejects now db' u changes))"
      by (rule 4 [OF m refl])
    then show ?thesis
      using m row_keys_markAsCancelled [OF m] by simp
  qed
qed

lemma cancelled_key_map_update:
  assumes "cancelled_key db u e"
    and "\<And>x. P x \<Longrightarrow> has_key u e (f x) \<Longrightarrow> status (f x) = EventStatus_value CANCELLED"
  shows "cancelled_key (map (\<lambda>r. if P r then f r else r) db) u e"
  unfolding cancelled_key_def
proof
  fix row
  assume "row \<in> set (map (\<lambda>r. if P r then f r else r) db)"
  then obtain x where x: "x \<in> set db" "row = (if P x then f x else x)"
    by auto
  show "has_key u e row \<longrightarrow> status row = EventStatus_value CANCELLED"
  proof (cases "P x")
    case True
    with x assms(2) show ?thesis by simp
  next
    case False
    with x assms(1) show ?thesis by (simp add: cancelled_key_def)
  qed
qed

lemma has_key_unique: "has_key u e r \<Longrightarrow> has_key u' e' r \<Longrightarrow> (u', e') = (u, e)"
  by (simp add: has_key_def)

lemma cancelled_key_append:
  "cancelled_key db u e \<Longrightarrow> \<not> has_key u e r \<Longrightarrow> cancelled_key (db @ [r]) u e"
  by (simp add: cancelled_key_def)

lemma cancelled_key_upsert:
  assumes "upsert rejects now db ed = Inr (db', row)"
    and "cancelled_key db u e" "(userId ed, eventId ed) \<noteq> (u, e)"
  shows "cancelled_key db' u e"
  using assms(1)
proof (cases rule: upsert_cases)
  case inserted
  have "\<not> has_key u e (insertedRow now ed)"
    using assms(3) has_key_unique [OF has_key_insertedRow [of ed now], of u e] by auto
  with inserted assms(2) show ?thesis
    by (simp add: cancelled_key_append)
next
  case (updated ex)
  have "cancelled_key (map (\<lambda>r. if has_key (userId ed) (eventId ed) r
                       then updatedRow now (hasChanged (Some ex) ed) ed r else r) db) u e"
  proof (rule cancelled_key_map_update [OF assms(2)])
    fix x
    assume "has_key (userId ed) (eventId ed) x"
    then have "has_key (userId ed) (eventId ed) (updatedRow now (hasChanged (Some ex) ed) ed x)"
      by (rule has_key_updatedRow)
    moreover assume "has_key u e (updatedRow now (hasChanged (Some ex) ed) ed x)"
    ultimately have "(u, e) = (userId ed, eventId ed)"
      by (rule has_key_unique)
    with assms(3) show "status (updatedRow now (hasChanged (Some ex) ed) ed x) = EventStatus_value CANCELLED"
      by auto
  qed
  with updated show ?thesis by simp
qed

lemma cancelled_key_markAsCancelled:
  assumes "markAsCancelled now db u' e' = Inr (db', row)"
    and "cancelled_key db u e"
  shows "cancelled_key db' u e"
  unfolding markAsCancelled_Inr [OF assms(1)]
  by (rule cancelled_key_map_update [OF assms(2)]) simp

lemma cancelled_key_markAsCancelled_same:
  assumes "markAsCancelled now db u e = Inr (db', row)"
  shows "cancelled_key db' u e"
  unfolding markAsCancelled_Inr [OF assms] cancelled_key_def
proof
  fix r
  assume "r \<in> set (map (\<lambda>r. if has_key u e r
              then r \<lparr> status := EventStatus_value CANCELLED, last_modified := Some now \<rparr>
              else r) db)"
  then obtain x where x: "x \<in> set db"
      "r = (if has_key u e x
            then x \<lparr> status := EventStatus_value CANCELLED, last_modified := Some now \<rparr> else x)"
    by auto
  show "has_key u e r \<longrightarrow> status r = EventStatus_value CANCELLED"
    using x(2) by (cases "has_key u e x") simp_all
qed

lemma syncEvents_single:
  "syncEvents rejects now db u [g] =
     (case upsert rejects now db (syncEventData now u g) of
        Inl err \<Rightarrow> (Inl err, db)
      | Inr (db', row) \<Rightarrow> (Inr (), db'))"
  by (simp split: sum.splits)

lemma cancelled_key_syncEvent:
  assumes "cancelled_key db u e" "g_id g \<noteq> e"
  shows "cancelled_key (snd (syncEvents rejects now db u [g])) u e"
proof (cases "upsert rejects now db (syncEventData now u g)")
  case (Inl err)
  with assms(1) show ?thesis by (simp add: syncEvents_single)
next
  case (Inr p)
  obtain db' row where p: "p = (db', row)" by (cases p)
  have k: "(userId (syncEventData now u g), eventId (syncEventData now u g)) \<noteq> (u, e)"
    using assms(2) by (simp add: syncEventData_def)
  have "cancelled_key db' u e"
    using Inr [unfolded p] assms(1) k by (rule cancelled_key_upsert)
  with Inr p show ?thesis by (simp add: syncEvents_single)
qed

lemma cancelled_key_processChanges:
  assumes "cancelled_key db u e" "\<forall>c\<in>set cs. \<not> touches c e"
  shows "cancelled_key (processChanges rejects now db u cs) u e"
  using assms
proof (induction rejects now db u cs rule: processChanges.induct)
  case (1 rejects now db u)
  then show ?case by simp
next
  case (2 rejects now db u event changes)
  obtain res db' where s: "syncEvents rejects now db u [event] = (res, db')"
    by (cases "syncEvents rejects now db u [event]")
  have "g_id event \<noteq> e"
    using "2.prems"(2) by (simp add: touches_def)
  then have c: "cancelled_key db' u e"
    using cancelled_key_syncEvent [OF "2.prems"(1), of event rejects now] s by simp
  show ?case
  proof (cases res)
    case (Inl err)
    with s c show ?thesis by simp
  next
    case (Inr ok)
    have "cancelled_key (processChanges rejects now db' u changes) u e"
      using s Inr c "2.prems"(2) by (intro "2.IH") simp_all
    with s Inr show ?thesis by simp
  qed
next
  case (3 rejects now db u event changes)
  obtain res db' where s: "syncEvents rejects now db u [event] = (res, db')"
    by (cases "syncEvents rejects now db u [event]")
  have "g_id event \<noteq> e"
    using "3.prems"(2) by (simp add: touches_def)
  then have c: "cancelled_key db' u e"
    using cancelled_key_syncEvent [OF "3.prems"(1), of event rejects now] s by simp
  show ?case
  proof (cases res)
    case (Inl err)
    with s c show ?thesis by simp
  next
    case (Inr ok)
    have "cancelled_key (processChanges rejects now db' u changes) u e"
      using s Inr c "3.prems"(2) by (intro "3.IH") simp_all
    with s Inr show ?thesis by simp
  qed
next
  case (4 rejects now db u row changes)
  show ?case
  proof (cases "markAsCancelled now db u (event_id row)")
    case (Inl err)
    with "4.prems" show ?thesis by simp
  next
    case (Inr p)
    obtain db' c where p: "p = (db', c)" by (cases p)
    have m: "markAsCancelled now db u (event_id row) = Inr (db', c)"
      using Inr p by simp
    have "cancelled_key db' u e"
      using m "4.prems"(1) by (rule cancelled_key_markAsCancelled)
    then have "cancelled_key (processChanges rejects now db' u changes) u e"
      using "4.prems" by (intro "4.IH" [OF m refl]) auto
    then show ?thesis using m by simp
  qed
qed

lemma present_after_prefix:
  "prefix (row_keys db) (row_keys db') \<Longrightarrow> k \<in> set (row_keys db) \<Longrightarrow> k \<in> set (row_keys db')"
  by (auto simp: prefix_def)

lemma syncEvents_single_storable:
  assumes "rejects (syncEventData now u g) = None"
  shows "fst (syncEvents rejects now db u [g]) = Inr ()"
proof -
  obtain db' row where "upsert rejects now db (syncEventData now u g) = Inr (db', row)"
    using upsert_accepted [of rejects "syncEventData now u g" now db] assms by blast
  then show ?thesis by (simp add: syncEvents_single)
qed

lemma processChanges_cancels:
  assumes "Deleted r \<in> set cs"
    and "\<forall>r'. Deleted r' \<in> set cs \<longrightarrow> (u, event_id r') \<in> set (row_keys db)"
    and "\<forall>c\<in>set cs. \<not> touches c (event_id r)"
    and "\<forall>c\<in>set cs. storable rejects now u c"
  shows "cancelled_key (processChanges rejects now db u cs) u (event_id r)"
  using assms
proof (induction rejects now db u cs rule: processChanges.induct)
  case (1 rejects now db u)
  then show ?case by simp
next
  case (2 rejects now db u event changes)
  obtain res db' where s: "syncEvents rejects now db u [event] = (res, db')"
    by (cases "syncEvents rejects now db u [event]")
  have "rejects (syncEventData now u event) = None"
    using "2.prems"(4) by (simp add: storable_def)
  then have res: "res = Inr ()"
    using syncEvents_single_storable [of rejects now u event db] s by simp
  have "prefix (row_keys db) (row_keys db')"
    using row_keys_syncEvents [of db rejects now u "[event]"] s by simp
  then have "\<forall>r'. Deleted r' \<in> set changes \<longrightarrow> (u, event_id r') \<in> set (row_keys db')"
    using "2.prems"(2) present_after_prefix by auto
  then have "cancelled_key (processChanges rejects now db' u changes) u (event_id r)"
    using s res "2.prems" by (intro "2.IH") auto
  with s res show ?case by simp
next
  case (3 rejects now db u event changes)
  obtain res db' where s: "syncEvents rejects now db u [event] = (res, db')"
    by (cases "syncEvents rejects now db u [event]")
  have "rejects (syncEventData now u event) = None"
    using "3.prems"(4) by (simp add: storable_def)
  then have res: "res = Inr ()"
    using syncEvents_single_storable [of rejects now u event db] s by simp
  have "prefix (row_keys db) (row_keys db')"
    using row_keys_syncEvents [of db rejects now u "[event]"] s by simp
  then have "\<forall>r'. Deleted r' \<in> set changes \<longrightarrow> (u, event_id r') \<in> set (row_keys db')"
    using "3.prems"(2) present_after_prefix by auto
  then have "cancelled_key (processChanges rejects now db' u changes) u (event_id r)"
    using s res "3.prems" by (intro "3.IH") auto
  with s res show ?case by simp
next
  case (4 rejects now db u row changes)
  have "(u, event_id row) \<in> set (row_keys db)"
    using "4.prems"(2) by simp
  then obtain db' c where m: "markAsCancelled now db u (event_id row) = Inr (db', c)"
    using markAsCancelled_succeeds [of u "event_id row" db now] by auto
  have keys: "row_keys db' = row_keys db"
    using m by (rule row_keys_markAsCancelled)
  show ?case
  proof (cases "event_id row = event_id r")
    case True
    have "cancelled_key db' u (event_id r)"
      using cancelled_key_markAsCancelled_same [OF m] True by simp
    then have "cancelled_key (processChanges rejects now db' u changes) u (event_id r)"
      using "4.prems"(3) by (intro cancelled_key_processChanges) auto
    then show ?thesis using m by simp
  next
    case False
    then have "Deleted r \<in> set changes"
      using "4.prems"(1) by auto
    moreover have "\<forall>r'. Deleted r' \<in> set changes \<longrightarrow> (u, event_id r') \<in> set (row_keys db')"
      using "4.prems"(2) keys by simp
    ultimately have "cancelled_key (processChanges rejects now db' u changes) u (event_id r)"
      using "4.prems"(3,4) by (intro "4.IH" [OF m refl]) auto
    then show ?thesis using m by simp
  qed
qed

lemma set_findByUserIdAndDateRange:
  "set (findByUserIdAndDateRange db u a b) =
     {r \<in> set db. user_id r = u \<and> a \<le> start_time r \<and> start_time r < b \<and>
                  status r \<noteq> EventStatus_value CANCELLED}"
  by (auto simp: findByUserIdAndDateRange_def)

lemma checkEvent_cases:
  "c \<in> set (checkEvent now stored g) \<Longrightarrow> c = Added g \<or> c = Modified g"
  by (auto simp: checkEvent_def Let_def split: option.splits if_splits)

lemma newAndModified_cases:
  "c \<in> set (newAndModified now stored gs) \<Longrightarrow> \<exists>g\<in>set gs. c = Added g \<or> c = Modified g"
  by (auto simp: set_newAndModified dest: checkEvent_cases)

lemma Deleted_in_checkForChanges:
  "Deleted r \<in> set (checkForChanges now fetched db u) \<longleftrightarrow>
     (\<exists>gs. fetched = Some gs \<and>
        r \<in> set (findByUserIdAndDateRange db u now (now + 24 * 60 * 60 * 1000)) \<and>
        (\<forall>g\<in>set gs. g_id g \<noteq> event_id r))"
proof (cases fetched)
  case None
  then show ?thesis by (simp add: checkForChanges_def)
next
  case (Some gs)
  have "Deleted r \<notin> set (newAndModified now (findByUserIdAndDateRange db u now (now + 24 * 60 * 60 * 1000)) gs)"
    using newAndModified_cases by blast
  with Some show ?thesis
    by (auto simp: checkForChanges_def Let_def set_deletedEvents)
qed

lemma touches_in_checkForChanges:
  assumes "c \<in> set (checkForChanges now (Some gs) db u)" "touches c e"
  shows "\<exists>g\<in>set gs. g_id g = e"
proof -
  from assms(1) have "c \<in> set (newAndModified now (findByUserIdAndDateRange db u now (now + 24 * 60 * 60 * 1000)) gs)
      \<or> c \<in> set (deletedEvents gs (findByUserIdAndDateRange db u now (now + 24 * 60 * 60 * 1000)))"
    by (auto simp: checkForChanges_def Let_def)
  then show ?thesis
  proof
    assume "c \<in> set (newAndModified now (findByUserIdAndDateRange db u now (now + 24 * 60 * 60 * 1000)) gs)"
    then obtain g where "g \<in> set gs" "c = Added g \<or> c = Modified g"
      using newAndModified_cases by blast
    with assms(2) show ?thesis by (auto simp: touches_def)
  next
    assume "c \<in> set (deletedEvents gs (findByUserIdAndDateRange db u now (now + 24 * 60 * 60 * 1000)))"
    with assms(2) show ?thesis by (auto simp: set_deletedEvents touches_def)
  qed
qed

text \<open>
  Claim C6, amended. Let the fetch succeed and let \<open>r\<close> be a row the range query returns
  whose id no fetched event carries. Then a \<open>Deleted r\<close> record is emitted, and processing
  it, \<open>markAsCancelled\<close>, succeeds and sets the status of the row to CANCELLED with the
  rows of the table kept. After the polling step no row has been removed (the keys of the
  old table are a prefix of the keys of the new one). When the database accepts every
  added and modified event of the pass, every row with the key of \<open>r\<close> has status
  CANCELLED after the step and no later detection pass, whatever it fetches, emits a
  \<open>Deleted\<close> record for that event id.
\<close>

theorem remote_deletion_is_soft:
  assumes fetch: "fetchEvents (env_findById env (uid user)) (env_listed env (uid user)) = Some gs"
    and stored: "r \<in> set (findByUserIdAndDateRange db (uid user) (env_now env)
                             (env_now env + 24 * 60 * 60 * 1000))"
    and absent: "\<forall>g\<in>set gs. g_id g \<noteq> event_id r"
  shows "let cs = checkForChanges (env_now env) (Some gs) db (uid user);
             db' = fst (checkUserForChanges env (db, sent) user)
         in Deleted r \<in> set cs \<and>
            (\<exists>db1 row. markAsCancelled (env_now env) db (uid user) (event_id r) = Inr (db1, row) \<and>
               status row = EventStatus_value CANCELLED \<and> row_keys db1 = row_keys db) \<and>
            prefix (row_keys db) (row_keys db') \<and>
            ((\<forall>g\<in>set gs. Added g \<in> set cs \<or> Modified g \<in> set cs \<longrightarrow>
                 env_store_rejects env (syncEventData (env_now env) (uid user) g) = None) \<longrightarrow>
             (\<forall>row\<in>set db'. has_key (uid user) (event_id r) row \<longrightarrow>
                status row = EventStatus_value CANCELLED) \<and>
             (\<forall>now2 fetched2 r2.
                Deleted r2 \<in> set (checkForChanges now2 fetched2 db' (uid user)) \<longrightarrow>
                event_id r2 \<noteq> event_id r))"
proof -
  let ?u = "uid user"
  let ?cs = "checkForChanges (env_now env) (Some gs) db ?u"
  let ?db' = "processChanges (env_store_rejects env) (env_now env) db ?u ?cs"
  have del: "Deleted r \<in> set ?cs"
    using stored absent by (simp add: Deleted_in_checkForChanges)
  then have "length ?cs > 0"
    by (cases ?cs) auto
  then have db': "fst (checkUserForChanges env (db, sent) user) = ?db'"
    using fetch by (simp add: checkUserForChanges_def Let_def split: prod.splits)
  have keys: "prefix (row_keys db) (row_keys ?db')"
    by (rule row_keys_processChanges)
  have present: "\<forall>r'. Deleted r' \<in> set ?cs \<longrightarrow> (?u, event_id r') \<in> set (row_keys db)"
    by (force simp: Deleted_in_checkForChanges set_findByUserIdAndDateRange row_keys_def)
  have untouched: "\<forall>c\<in>set ?cs. \<not> touches c (event_id r)"
    using absent touches_in_checkForChanges by blast
  have mark: "\<exists>db1 row. markAsCancelled (env_now env) db ?u (event_id r) = Inr (db1, row) \<and>
               status row = EventStatus_value CANCELLED \<and> row_keys db1 = row_keys db"
  proof -
    have "(?u, event_id r) \<in> set (row_keys db)"
      using present del by blast
    then obtain db1 row where m: "markAsCancelled (env_now env) db ?u (event_id r) = Inr (db1, row)"
      using markAsCancelled_succeeds by blast
    have "find (has_key ?u (event_id r)) db1 = Some row"
      using m by (auto simp: markAsCancelled_def Let_def split: option.splits)
    then have "has_key ?u (event_id r) row \<and> row \<in> set db1"
      by (rule find_SomeD)
    then have "status row = EventStatus_value CANCELLED"
      using cancelled_key_markAsCancelled_same [OF m] unfolding cancelled_key_def by blast
    with m row_keys_markAsCancelled [OF m] show ?thesis by blast
  qed
  have cond: "(\<forall>g\<in>set gs. Added g \<in> set ?cs \<or> Modified g \<in> set ?cs \<longrightarrow>
                 env_store_rejects env (syncEventData (env_now env) ?u g) = None) \<longrightarrow>
             (\<forall>row\<in>set ?db'. has_key ?u (event_id r) row \<longrightarrow>
                status row = EventStatus_value CANCELLED) \<and>
             (\<forall>now2 fetched2 r2.
                Deleted r2 \<in> set (checkForChanges now2 fetched2 ?db' ?u) \<longrightarrow>
                event_id r2 \<noteq> event_id r)"
  proof
    assume acc: "\<forall>g\<in>set gs. Added g \<in> set ?cs \<or> Modified g \<in> set ?cs \<longrightarrow>
                 env_store_rejects env (syncEventData (env_now env) ?u g) = None"
    have st: "\<forall>c\<in>set ?cs. storable (env_store_rejects env) (env_now env) ?u c"
    proof
      fix c assume c: "c \<in> set ?cs"
      show "storable (env_store_rejects env) (env_now env) ?u c"
      proof (cases c)
        case (Added g)
        then have "touches c (g_id g)" by (simp add: touches_def)
        then have "g \<in> set gs"
          using c Added
          by (auto simp: checkForChanges_def Let_def set_deletedEvents dest!: newAndModified_cases)
        with acc c Added show ?thesis by (auto simp: storable_def)
      next
        case (Modified g)
        then have "g \<in> set gs"
          using c
          by (auto simp: checkForChanges_def Let_def set_deletedEvents dest!: newAndModified_cases)
        with acc c Modified show ?thesis by (auto simp: storable_def)
      next
        case (Deleted x)
        then show ?thesis by (simp add: storable_def)
      qed
    qed
    have canc: "cancelled_key ?db' ?u (event_id r)"
      using del present untouched st by (rule processChanges_cancels)
    have again: "\<forall>now2 fetched2 r2. Deleted r2 \<in> set (checkForChanges now2 fetched2 ?db' ?u) \<longrightarrow>
           event_id r2 \<noteq> event_id r"
    proof (intro allI impI notI)
      fix now2 fetched2 r2
      assume d: "Deleted r2 \<in> set (checkForChanges now2 fetched2 ?db' ?u)"
        and e: "event_id r2 = event_id r"
      from d have "r2 \<in> set ?db'" "user_id r2 = ?u" "status r2 \<noteq> EventStatus_value CANCELLED"
        by (auto simp: Deleted_in_checkForChanges set_findByUserIdAndDateRange)
      with e canc show False
        by (auto simp: cancelled_key_def has_key_def)
    qed
    from canc again show "(\<forall>row\<in>set ?db'. has_key ?u (event_id r) row \<longrightarrow>
                status row = EventStatus_value CANCELLED) \<and>
             (\<forall>now2 fetched2 r2.
                Deleted r2 \<in> set (checkForChanges now2 fetched2 ?db' ?u) \<longrightarrow>
                event_id r2 \<noteq> event_id r)"
      unfolding cancelled_key_def by (rule conjI)
  qed
  show ?thesis
    unfolding Let_def db'
    using del mark keys cond by (intro conjI)
qed

lemma char_count_replicate: "char_count (replicate n (CHR ''x'')) = n"
  by (simp add: char_count_def)

text \<open>
  Claim C6 as stated fails when a sync of the same pass throws. The fetch returns one new
  event whose title has 501 characters and not the sample row: the pass emits \<open>Added\<close> and
  \<open>Deleted\<close>, the database rejects the new row, the exception ends the loop of
  \<open>processChanges\<close> before the deletion, the sample row stays confirmed, and the same fetch
  five minutes later emits the \<open>Deleted\<close> record again.
\<close>

theorem failed_sync_skips_deletion_counterexample:
  "fetchEvents (env_findById longTitleEnv (uid sampleUser)) (env_listed longTitleEnv (uid sampleUser)) =
     Some [longTitleEvent] \<and>
   checkForChanges 0 (Some [longTitleEvent]) [sampleRow] 1 =
     [Added longTitleEvent, Deleted sampleRow] \<and>
   env_store_rejects longTitleEnv (syncEventData 0 1 longTitleEvent) = Some (too_long 500) \<and>
   fst (checkUserForChanges longTitleEnv ([sampleRow], []) sampleUser) = [sampleRow] \<and>
   status sampleRow = ''confirmed'' \<and>
   checkForChanges 300000 (Some [longTitleEvent])
     (fst (checkUserForChanges longTitleEnv ([sampleRow], []) sampleUser)) 1 =
     [Added longTitleEvent, Deleted sampleRow]"
proof -
  have f: "fetchEvents (env_findById longTitleEnv (uid sampleUser))
             (env_listed longTitleEnv (uid sampleUser)) = Some [longTitleEvent]"
    by (simp add: longTitleEnv_def sampleEnv_def sampleUser_def fetchEvents_def
        getCalendarClient_def js_or_list_def)
  have c: "\<And>t. t = 0 \<or> t = 300000 \<Longrightarrow>
      checkForChanges t (Some [longTitleEvent]) [sampleRow] 1 =
        [Added longTitleEvent, Deleted sampleRow]"
    by (auto simp: checkForChanges_def Let_def findByUserIdAndDateRange_def checkEvent_def
        sampleRow_def longTitleEvent_def meeting_def)
  have r: "schemaRejects (syncEventData 0 1 longTitleEvent) = Some (too_long 500)"
    by (simp add: schemaRejects_def syncEventData_def longTitleEvent_def meeting_def js_or_def
        char_count_replicate char_count_def)
  have e: "env_store_rejects longTitleEnv = schemaRejects" "env_now longTitleEnv = 0"
    "uid sampleUser = 1"
    by (simp_all add: longTitleEnv_def sampleEnv_def sampleUser_def)
  have p: "fst (checkUserForChanges longTitleEnv ([sampleRow], []) sampleUser) = [sampleRow]"
    unfolding checkUserForChanges_def
    by (simp add: f [unfolded e] e c Let_def split_beta) (simp add: upsert_def Let_def r)
  show ?thesis
    unfolding p using f c [of 0] c [of 300000] r e by (simp add: sampleRow_def)
qed

text \<open>
  The fetch returns the birthday party and not the sample row: the party is stored, the
  sample row is cancelled and not reported again.
\<close>

theorem remote_deletion_is_soft_witness:
  "fetchEvents (env_findById partyEnv (uid sampleUser)) (env_listed partyEnv (uid sampleUser)) =
     Some [birthdayParty] \<and>
   sampleRow \<in> set (findByUserIdAndDateRange [sampleRow] (uid sampleUser) (env_now partyEnv)
                      (env_now partyEnv + 24 * 60 * 60 * 1000)) \<and>
   g_id birthdayParty \<noteq> event_id sampleRow \<and>
   checkForChanges (env_now partyEnv) (Some [birthdayParty]) [sampleRow] (uid sampleUser) =
     [Added birthdayParty, Deleted sampleRow] \<and>
   env_store_rejects partyEnv (syncEventData (env_now partyEnv) (uid sampleUser) birthdayParty) = None \<and>
   map status (fst (checkUserForChanges partyEnv ([sampleRow], []) sampleUser)) =
     [''cancelled'', ''confirmed''] \<and>
   Deleted sampleRow \<notin> set (checkForChanges 300000 (Some [birthdayParty])
     (fst (checkUserForChanges partyEnv ([sampleRow], []) sampleUser)) (uid sampleUser))"
proof -
  have e: "env_store_rejects partyEnv = schemaRejects" "env_now partyEnv = 0"
    "uid sampleUser = 1"
    by (simp_all add: partyEnv_def sampleEnv_def sampleUser_def)
  have f: "fetchEvents (env_findById partyEnv (uid sampleUser)) (env_listed partyEnv (uid sampleUser)) =
     Some [birthdayParty]"
    by (simp add: partyEnv_def sampleEnv_def sampleUser_def fetchEvents_def
        getCalendarClient_def js_or_list_def)
  have s: "sampleRow \<in> set (findByUserIdAndDateRange [sampleRow] (uid sampleUser) (env_now partyEnv)
                      (env_now partyEnv + 24 * 60 * 60 * 1000))"
    by (simp add: e findByUserIdAndDateRange_def sampleRow_def)
  have a: "\<forall>g\<in>set [birthdayParty]. g_id g \<noteq> event_id sampleRow"
    by (simp add: birthdayParty_def meeting_def sampleRow_def)
  have cs: "checkForChanges (env_now partyEnv) (Some [birthdayParty]) [sampleRow] (uid sampleUser) =
     [Added birthdayParty, Deleted sampleRow]"
    by (simp add: e checkForChanges_def Let_def findByUserIdAndDateRange_def checkEvent_def
        sampleRow_def birthdayParty_def meeting_def)
  have ok: "env_store_rejects partyEnv (syncEventData (env_now partyEnv) (uid sampleUser) birthdayParty) = None"
    by (simp add: e schemaRejects_def char_count_def syncEventData_def birthdayParty_def
        meeting_def js_or_def)
  have db': "map status (fst (checkUserForChanges partyEnv ([sampleRow], []) sampleUser)) =
     [''cancelled'', ''confirmed'']"
    unfolding checkUserForChanges_def
    using ok
    by (simp add: f cs Let_def split_beta)
       (simp add: e upsert_def Let_def findByUserIdAndEventId_def has_key_def insertedRow_def
          markAsCancelled_def syncEventData_def sampleRow_def birthdayParty_def meeting_def
          js_or_def)
  have "(\<forall>g\<in>set [birthdayParty].
           Added g \<in> set (checkForChanges (env_now partyEnv) (Some [birthdayParty]) [sampleRow]
                              (uid sampleUser)) \<or>
           Modified g \<in> set (checkForChanges (env_now partyEnv) (Some [birthdayParty]) [sampleRow]
                                 (uid sampleUser)) \<longrightarrow>
           env_store_rejects partyEnv (syncEventData (env_now partyEnv) (uid sampleUser) g) = None)"
    using ok by simp
  then have "\<forall>now2 fetched2 r2.
      Deleted r2 \<in> set (checkForChanges now2 fetched2
                           (fst (checkUserForChanges partyEnv ([sampleRow], []) sampleUser))
                           (uid sampleUser)) \<longrightarrow>
      event_id r2 \<noteq> event_id sampleRow"
    using remote_deletion_is_soft [OF f s a, of "[]", unfolded Let_def] by blast
  then have n: "Deleted sampleRow \<notin> set (checkForChanges 300000 (Some [birthdayParty])
     (fst (checkUserForChanges partyEnv ([sampleRow], []) sampleUser)) (uid sampleUser))"
    by blast
  from f s a cs ok db' n show ?thesis by simp
qed

section \<open>The fan-out of the dispatcher\<close>

lemma sendMessage_eq:
  "sendMessage creds post sent recipient message =
     (configured creds \<and> post (formatRecipient recipient) message,
      sent @ (if configured creds then [(formatRecipient recipient, message)] else []))"
  by (simp add: sendMessage_def configured_def formatRecipient_def Let_def)

lemma sendToAll_eq:
  "sendToAll creds post sent rs message =
     (map (\<lambda>r. Fulfilled (configured creds \<and> post (formatRecipient r) message)) rs,
      sent @ (if configured creds then map (\<lambda>r. (formatRecipient r, message)) rs else []))"
  by (induction rs arbitrary: sent) (simp_all add: sendMessage_eq)

lemma successCount_pos:
  "successCount (map (\<lambda>r. Fulfilled (f r)) rs) > 0 \<longleftrightarrow> (\<exists>r\<in>set rs. f r)"
  by (auto simp: successCount_def filter_empty_conv)

text \<open>
  Claim C7. \<open>sendDailySummary\<close> of the dispatcher calls \<open>sendMessage\<close> once for each
  entry of the recipient list, in order and whatever the other calls return: the outbox
  grows by the requests of the single calls, and the result is true exactly when one of
  the calls returns true. \<open>sendChangeNotification\<close> fans out in the same way. With
  credentials configured this is one request to each formatted recipient.
\<close>

theorem fan_out_partial_success:
  "WhatsAppService_sendDailySummary creds post sent recipients text =
     ((\<exists>r\<in>set (recipientArray recipients).
         fst (sendMessage creds post [] r (dailySummaryMessage text))),
      sent @ concat (map (\<lambda>r. snd (sendMessage creds post [] r (dailySummaryMessage text)))
                       (recipientArray recipients))) \<and>
   sendChangeNotification L creds post sent recipients changes =
     ((\<exists>r\<in>set (recipientArray recipients).
         fst (sendMessage creds post [] r (changeMessage L changes))),
      sent @ concat (map (\<lambda>r. snd (sendMessage creds post [] r (changeMessage L changes)))
                       (recipientArray recipients))) \<and>
   (accountSid creds \<noteq> [] \<and> authToken creds \<noteq> [] \<and> fromNumber creds \<noteq> [] \<longrightarrow>
      snd (WhatsAppService_sendDailySummary creds post sent recipients text) =
        sent @ map (\<lambda>r. (if prefix ''whatsapp:'' r then r else ''whatsapp:'' @ r,
                          dailySummaryMessage text)) (recipientArray recipients))"
proof -
  have c: "\<And>m rs. concat (map (\<lambda>r. snd (sendMessage creds post [] r m)) rs) =
      (if configured creds then map (\<lambda>r. (formatRecipient r, m)) rs else [])"
    subgoal for m rs by (induction rs) (simp_all add: sendMessage_eq)
    done
  show ?thesis
    by (simp add: WhatsAppService_sendDailySummary_def sendChangeNotification_def sendToAll_eq
        successCount_pos c)
      (simp add: sendMessage_eq configured_def formatRecipient_def)
qed

text \<open>Three recipients, the second of which the channel rejects: three requests, success.\<close>

theorem fan_out_partial_success_witness:
  "WhatsAppService_sendDailySummary (env_credentials sampleEnv) (env_post sampleEnv) []
     (Multiple [''+15550001'', ''whatsapp:+15550002'', ''+15550003'']) ''hello'' =
     (True, [(''whatsapp:+15550001'', dailySummaryMessage ''hello''),
             (''whatsapp:+15550002'', dailySummaryMessage ''hello''),
             (''whatsapp:+15550003'', dailySummaryMessage ''hello'')]) \<and>
   \<not> env_post sampleEnv ''whatsapp:+15550002'' (dailySummaryMessage ''hello'')"
  using fan_out_partial_success [of "env_credentials sampleEnv" "env_post sampleEnv" "[]"
      "Multiple [''+15550001'', ''whatsapp:+15550002'', ''+15550003'']" "''hello''"]
  by (simp add: sampleEnv_def sendMessage_def)

section \<open>The daily summary\<close>

lemma minutes_at_least_fifteen:
  "((of_int d :: rat) / (1000 * 60) \<ge> 15) \<longleftrightarrow> d \<ge> 15 * 60 * 1000"
proof -
  have "((of_int d :: rat) / (1000 * 60) \<ge> 15) \<longleftrightarrow> (of_int d :: rat) \<ge> 15 * (1000 * 60)"
    by (simp add: pos_le_divide_eq)
  also have "\<dots> \<longleftrightarrow> (of_int d :: rat) \<ge> of_int (15 * 60 * 1000)"
    by simp
  also have "\<dots> \<longleftrightarrow> d \<ge> 15 * 60 * 1000"
    by (simp only: of_int_le_iff)
  finally show ?thesis .
qed

lemma addFreeBlock_eq:
  "addFreeBlock L b acc =
     acc @ (if block_end b - block_start b \<ge> 15 * 60 * 1000
            then free_sign @ '' '' @ timeRange L (block_start b) (block_end b) @ nl else [])"
  unfolding addFreeBlock_def Let_def minutes_at_least_fifteen by simp

lemma fold_addFreeBlock:
  "fold (addFreeBlock L) blocks acc =
     acc @ concat (map (\<lambda>b. free_sign @ '' '' @ timeRange L (block_start b) (block_end b) @ nl)
                      (filter (\<lambda>b. block_end b - block_start b \<ge> 15 * 60 * 1000) blocks))"
proof (induction blocks arbitrary: acc)
  case Nil
  show ?case by simp
next
  case (Cons b blocks)
  let ?line = "\<lambda>b. free_sign @ '' '' @ timeRange L (block_start b) (block_end b) @ nl"
  let ?long = "\<lambda>b. block_end b - block_start b \<ge> 15 * 60 * 1000"
  have "fold (addFreeBlock L) (b # blocks) acc = fold (addFreeBlock L) blocks (addFreeBlock L b acc)"
    by simp
  also have "\<dots> = addFreeBlock L b acc @ concat (map ?line (filter ?long blocks))"
    by (rule Cons.IH)
  also have "\<dots> = acc @ concat (map ?line (filter ?long (b # blocks)))"
    by (cases "?long b") (simp_all add: addFreeBlock_eq)
  finally show ?case .
qed

lemma addFreeSection_eq:
  "addFreeSection L blocks acc =
     acc @ (if blocks = [] then []
             else alarm_sign @ '' FREE:'' @ nl @
                  concat (map (\<lambda>b. free_sign @ '' '' @ timeRange L (block_start b) (block_end b) @ nl)
                            (filter (\<lambda>b. block_end b - block_start b \<ge> 15 * 60 * 1000) blocks)) @ nl)"
  by (simp add: addFreeSection_def fold_addFreeBlock)

text \<open>
  Claim C8. When the user is found and there is a timed event, the summary text is the
  BUSY section, then, unless no free block was computed, the FREE section with one line
  for each computed free block of at least 15 minutes (900000 ms) and none for a shorter
  one, in the order of the blocks, then the total.
\<close>

theorem free_blocks_minimum_duration:
  assumes "found = Inr (Some user)"
    and "timedEventsOf (js_or_list fetched) \<noteq> []"
  shows "s_summary (getTodaySummary L now found fetched) =
     fold (addBusyEvent L now) (timedEventsOf (js_or_list fetched))
       (scheduleHeader L user now @ calendar_sign @ '' BUSY:'' @ nl) @
     (let freeBlocks = computeFreeBlocks now (startOfDay L now) (endOfDay L now)
                         (timedEventsOf (js_or_list fetched))
      in if freeBlocks = [] then []
         else alarm_sign @ '' FREE:'' @ nl @
              concat (map (\<lambda>b. free_sign @ '' '' @ timeRange L (block_start b) (block_end b) @ nl)
                        (filter (\<lambda>b. block_end b - block_start b \<ge> 15 * 60 * 1000) freeBlocks)) @
              nl) @
     ''Total appointments: '' @ show_nat (length (timedEventsOf (js_or_list fetched)))"
proof -
  have "js_or_list fetched \<noteq> []"
    using assms(2) by (auto simp: timedEventsOf_def)
  then show ?thesis
    using assms by (simp add: getTodaySummary_def Let_def addFreeSection_eq)
qed

lemma timedEventsOf_sampleDay: "timedEventsOf sampleDay = sampleDay"
  by (simp add: timedEventsOf_def sampleDay_def meeting_def js_or_time_def)

lemma computeFreeBlocks_sampleDay:
  "computeFreeBlocks 0 0 86399000 sampleDay =
     [\<lparr> block_start = 0, block_end = 32400000 \<rparr>,
      \<lparr> block_start = 36000000, block_end = 36840000 \<rparr>,
      \<lparr> block_start = 39600000, block_end = 40500000 \<rparr>]"
  by (simp add: computeFreeBlocks_def sampleDay_def meeting_def js_or_time_def)

text \<open>On the sample day the gap of 14 minutes is computed and not shown, the gap of 15 minutes is shown.\<close>

theorem free_blocks_minimum_duration_witness:
  "timedEventsOf (js_or_list (Some sampleDay)) \<noteq> [] \<and>
   computeFreeBlocks 0 (startOfDay sampleLocale 0) (endOfDay sampleLocale 0)
       (timedEventsOf (js_or_list (Some sampleDay))) =
     [\<lparr> block_start = 0, block_end = 32400000 \<rparr>,
      \<lparr> block_start = 36000000, block_end = 36840000 \<rparr>,
      \<lparr> block_start = 39600000, block_end = 40500000 \<rparr>] \<and>
   s_summary (getTodaySummary sampleLocale 0 (Inr (Some sampleUser)) (Some sampleDay)) =
     fold (addBusyEvent sampleLocale 0) sampleDay
       (scheduleHeader sampleLocale sampleUser 0 @ calendar_sign @ '' BUSY:'' @ nl) @
     alarm_sign @ '' FREE:'' @ nl @
     free_sign @ '' '' @ timeRange sampleLocale 0 32400000 @ nl @
     free_sign @ '' '' @ timeRange sampleLocale 39600000 40500000 @ nl @ nl @
     ''Total appointments: '' @ show_nat 3"
proof -
  have t: "timedEventsOf (js_or_list (Some sampleDay)) = sampleDay"
    by (simp add: js_or_list_def timedEventsOf_sampleDay)
  have n: "timedEventsOf (js_or_list (Some sampleDay)) \<noteq> []"
    unfolding t by (simp add: sampleDay_def)
  have l: "startOfDay sampleLocale 0 = 0" "endOfDay sampleLocale 0 = 86399000"
    by (simp_all add: sampleLocale_def)
  have len: "length sampleDay = 3"
    by (simp add: sampleDay_def)
  show ?thesis
    using free_blocks_minimum_duration [OF refl n, of sampleLocale 0 sampleUser] n
    unfolding t l computeFreeBlocks_sampleDay len
    by simp
qed

text \<open>
  Claim C3 has the cursor advance to the maximum of itself and the end of the event. The
  loop of \<open>getTodaySummary\<close> assigns the end of the event: on the day with the nested
  meeting, which is sorted by start, the cursor goes back from 12:00 to 10:30 and the
  span from 10:30 to the end of the day is reported free, though the outer meeting lasts
  until 12:00. The scan as the specification words it ends with the cursor at 12:00.
\<close>

theorem nested_event_moves_cursor_back:
  "timedEventsOf nestedDay = nestedDay \<and>
   freeBlocksLoop 0 ([], 0) nestedDay = ([\<lparr> block_start = 0, block_end = 32400000 \<rparr>], 37800000) \<and>
   computeFreeBlocks 0 0 86399000 nestedDay =
     [\<lparr> block_start = 0, block_end = 32400000 \<rparr>,
      \<lparr> block_start = 37800000, block_end = 86399000 \<rparr>] \<and>
   freeBlocksLoop_spec 0 ([], 0) nestedDay =
     ([\<lparr> block_start = 0, block_end = 32400000 \<rparr>], 43200000)"
  by (simp add: timedEventsOf_def computeFreeBlocks_def nestedDay_def meeting_def js_or_time_def)

section \<open>The manual trigger of the daily summary\<close>

lemma sendDailySummary_resolves:
  "fst (AutomationService_sendDailySummary env sent u) = Inr ()"
proof (cases "sendDailySummary_try env sent u")
  case (Pair res sent1)
  show ?thesis
  proof (cases res)
    case (Inl err)
    obtain res2 sent2 where n: "sendDailySummary_notify env sent1 u err = (res2, sent2)"
      by (cases "sendDailySummary_notify env sent1 u err")
    show ?thesis
      using Pair Inl n by (cases res2) (simp_all add: AutomationService_sendDailySummary_def)
  next
    case (Inr ok)
    with Pair show ?thesis
      by (simp add: AutomationService_sendDailySummary_def)
  qed
qed

text \<open>
  Claim C10. \<open>sendDailySummary\<close> of the automation service resolves whatever its
  collaborators do, so \<open>triggerDailySummary\<close> returns the success result for every
  environment, outbox and user id: its failure branch is never taken.
\<close>

theorem triggerDailySummary_always_succeeds:
  "fst (AutomationService_sendDailySummary env sent u) = Inr () \<and>
   fst (triggerDailySummary env sent u) =
     \<lparr> r_success = True, r_message = Some ''Daily summary sent successfully'', r_error = None \<rparr>"
proof -
  obtain res sent' where r: "AutomationService_sendDailySummary env sent u = (res, sent')"
    by (cases "AutomationService_sendDailySummary env sent u")
  with sendDailySummary_resolves [of env sent u] have "res = Inr ()"
    by simp
  with r show ?thesis
    by (simp add: triggerDailySummary_def)
qed

text \<open>The same result for a delivered summary, for a missing user and for a failing lookup; only the outbox differs.\<close>

theorem triggerDailySummary_always_succeeds_witness:
  "fst (triggerDailySummary sampleEnv [] 1) = fst (triggerDailySummary sampleEnv [] 2) \<and>
   fst (triggerDailySummary sampleEnv [] 1) = fst (triggerDailySummary brokenEnv [] 1) \<and>
   length (snd (triggerDailySummary sampleEnv [] 1)) = 3 \<and>
   snd (triggerDailySummary sampleEnv [] 2) = [] \<and>
   snd (triggerDailySummary brokenEnv [] 1) = []"
proof -
  have a: "snd (triggerDailySummary sampleEnv [] 2) = []"
    by (simp add: triggerDailySummary_def AutomationService_sendDailySummary_def
        sendDailySummary_try_def sampleEnv_def)
  have b: "snd (triggerDailySummary brokenEnv [] 1) = []"
    by (simp add: triggerDailySummary_def AutomationService_sendDailySummary_def
        sendDailySummary_try_def sendDailySummary_notify_def brokenEnv_def sampleEnv_def)
  have c: "length (snd (triggerDailySummary sampleEnv [] 1)) = 3"
    by (simp add: triggerDailySummary_def AutomationService_sendDailySummary_def
        sendDailySummary_try_def sampleEnv_def sampleUser_def recipientsOf_def
        WhatsAppService_sendDailySummary_def sendToAll_eq Let_def configured_def)
  show ?thesis
    using triggerDailySummary_always_succeeds [of sampleEnv "[]" 1]
      triggerDailySummary_always_succeeds [of sampleEnv "[]" 2]
      triggerDailySummary_always_succeeds [of brokenEnv "[]" 1] a b c
    by simp
qed

section \<open>The event type\<close>

lemma js_includes_sublist: "js_includes s k \<longleftrightarrow> sublist k s"
  by (induction s) (simp_all add: sublist_Cons_right)

lemma list_ex_includes:
  "list_ex (\<lambda>keyword. js_includes s keyword) ks \<longleftrightarrow> (\<exists>k\<in>set ks. sublist k s)"
  by (simp add: list_ex_iff js_includes_sublist)

lemma typed_WORK_find:
  assumes "typed_WORK db u e"
  shows "\<exists>row. findByUserIdAndEventId db u e = Some row \<and> event_type row = ''WORK''"
proof -
  from assms obtain r where "r \<in> set db" "has_key u e r"
    by (auto simp: typed_WORK_def)
  then have "find (has_key u e) db \<noteq> None"
    by (auto simp: find_None_iff)
  then obtain row where row: "find (has_key u e) db = Some row"
    by auto
  then have "has_key u e row \<and> row \<in> set db"
    by (rule find_SomeD)
  with assms row show ?thesis
    by (auto simp: typed_WORK_def findByUserIdAndEventId_def)
qed

lemma event_type_updatedRow: "event_type (updatedRow now changed ed r) = eventType ed"
  by (simp add: updatedRow_def)

lemma has_key_updatedRow_iff:
  "has_key u e (updatedRow now changed ed r) \<longleftrightarrow> has_key u e r"
  by (simp add: has_key_def updatedRow_def)

lemma typed_WORK_upsert:
  assumes up: "upsert rejects now db ed = Inr (db', row)"
    and ty: "eventType ed = ''WORK''"
    and pre: "typed_WORK db u e \<or> (userId ed, eventId ed) = (u, e)"
  shows "typed_WORK db' u e"
  using up
proof (cases rule: upsert_cases)
  case inserted
  have new: "has_key (userId ed) (eventId ed) (insertedRow now ed)"
    by (rule has_key_insertedRow)
  have tyn: "event_type (insertedRow now ed) = ''WORK''"
    using ty by (simp add: insertedRow_def)
  have nokey: "\<forall>r\<in>set db. \<not> has_key (userId ed) (eventId ed) r"
    using inserted(2) by (simp add: findByUserIdAndEventId_def find_None_iff)
  show ?thesis
  proof (cases "(userId ed, eventId ed) = (u, e)")
    case True
    with inserted(3) new tyn nokey show ?thesis
      by (auto simp: typed_WORK_def)
  next
    case False
    with pre have "typed_WORK db u e" by auto
    with inserted(3) tyn show ?thesis
      by (auto simp: typed_WORK_def)
  qed
next
  case (updated ex)
  from updated(2) have ex: "has_key (userId ed) (eventId ed) ex \<and> ex \<in> set db"
    unfolding findByUserIdAndEventId_def by (rule find_SomeD)
  let ?f = "\<lambda>r. if has_key (userId ed) (eventId ed) r
                then updatedRow now (hasChanged (Some ex) ed) ed r else r"
  have db': "db' = map ?f db"
    by (rule updated(3))
  have keep: "\<And>r. has_key u e (?f r) \<longleftrightarrow> has_key u e r"
    by (simp add: has_key_updatedRow_iff)
  have "\<exists>r\<in>set db. has_key u e r"
    using pre ex by (auto simp: typed_WORK_def)
  then obtain r where r: "r \<in> set db" "has_key u e r"
    by blast
  have "?f r \<in> set (map ?f db)"
    using r(1) unfolding set_map by (rule imageI)
  moreover have "has_key u e (?f r)"
    using r(2) by (simp only: keep)
  ultimately have some: "\<exists>row\<in>set (map ?f db). has_key u e row"
    by (rule bexI [rotated])
  have every: "\<forall>row\<in>set (map ?f db). has_key u e row \<longrightarrow> event_type row = ''WORK''"
  proof
    fix row assume "row \<in> set (map ?f db)"
    then obtain x where x: "x \<in> set db" "row = ?f x"
      unfolding set_map by blast
    show "has_key u e row \<longrightarrow> event_type row = ''WORK''"
    proof (cases "has_key (userId ed) (eventId ed) x")
      case True
      with x ty show ?thesis by (simp add: event_type_updatedRow)
    next
      case False
      show ?thesis
      proof
        assume "has_key u e row"
        with x False have hx: "has_key u e x" by simp
        with False have "(userId ed, eventId ed) \<noteq> (u, e)" by auto
        with pre have "typed_WORK db u e" by auto
        with hx x False show "event_type row = ''WORK''"
          by (simp add: typed_WORK_def)
      qed
    qed
  qed
  show ?thesis
    unfolding db' typed_WORK_def using some every by (rule conjI)
qed

lemma typed_WORK_syncEvents:
  assumes "syncEvents rejects now db u events = (Inr (), db')"
    and "typed_WORK db u e \<or> (\<exists>g\<in>set events. g_id g = e)"
  shows "typed_WORK db' u e"
  using assms
proof (induction events arbitrary: db)
  case Nil
  then show ?case by simp
next
  case (Cons g events)
  have ty: "eventType (syncEventData now u g) = ''WORK''"
    by (simp add: syncEventData_def)
  have key: "(userId (syncEventData now u g), eventId (syncEventData now u g)) = (u, g_id g)"
    by (simp add: syncEventData_def)
  show ?case
  proof (cases "upsert rejects now db (syncEventData now u g)")
    case (Inl err)
    with Cons.prems(1) show ?thesis by simp
  next
    case (Inr p)
    obtain db1 row where p: "p = (db1, row)" by (cases p)
    have up: "upsert rejects now db (syncEventData now u g) = Inr (db1, row)"
      using Inr p by simp
    have rest: "syncEvents rejects now db1 u events = (Inr (), db')"
      using Cons.prems(1) up by simp
    have "typed_WORK db1 u e \<or> (\<exists>g\<in>set events. g_id g = e)"
    proof (cases "typed_WORK db u e \<or> g_id g = e")
      case True
      then have "typed_WORK db1 u e"
        using typed_WORK_upsert [OF up ty, of u e] key by auto
      then show ?thesis ..
    next
      case False
      with Cons.prems(2) show ?thesis by auto
    qed
    with rest show ?thesis by (rule Cons.IH)
  qed
qed

text \<open>
  Claim C4, amended. \<open>categorizeEvent\<close> looks in the lower-cased text of summary, a
  space and description for one of the twenty work keywords, then for one of the nineteen
  personal keywords, and returns WORK, PERSONAL or UNKNOWN in that order. The sync path
  does not call it: when \<open>syncEvents\<close> returns, every synced event is stored with the
  event type \<open>'WORK'\<close>.
\<close>

theorem categorizeEvent_order_and_sync_default:
  "categorizeEvent lower title desc =
     (let text = lower (title @ '' '' @ (case desc of None \<Rightarrow> [] | Some d \<Rightarrow> d))
      in if \<exists>k\<in>{''meeting'', ''call'', ''interview'', ''presentation'', ''conference'',
                        ''workshop'', ''training'', ''review'', ''planning'', ''standup'', ''sprint'',
                        ''demo'', ''client'', ''business'', ''work'', ''office'', ''team'',
                        ''project'', ''deadline'', ''deliverable''}. sublist k text
         then WORK
         else if \<exists>k\<in>{''birthday'', ''anniversary'', ''dinner'', ''lunch'', ''coffee'', ''date'',
                             ''party'', ''celebration'', ''family'', ''friend'', ''personal'',
                             ''vacation'', ''holiday'', ''doctor'', ''dentist'', ''appointment'',
                             ''gym'', ''workout'', ''exercise''}. sublist k text
              then PERSONAL
              else UNKNOWN) \<and>
   (syncEvents rejects now db u events = (Inr (), db') \<longrightarrow>
      (\<forall>g\<in>set events. \<exists>row.
         findByUserIdAndEventId db' u (g_id g) = Some row \<and> event_type row = ''WORK''))"
proof
  have d: "js_or desc [] = (case desc of None \<Rightarrow> [] | Some d \<Rightarrow> d)"
    by (cases desc) (simp_all add: js_or_def)
  have w: "set workKeywords = {''meeting'', ''call'', ''interview'', ''presentation'', ''conference'',
                        ''workshop'', ''training'', ''review'', ''planning'', ''standup'', ''sprint'',
                        ''demo'', ''client'', ''business'', ''work'', ''office'', ''team'',
                        ''project'', ''deadline'', ''deliverable''}"
    by (simp add: workKeywords_def)
  have p: "set personalKeywords = {''birthday'', ''anniversary'', ''dinner'', ''lunch'', ''coffee'', ''date'',
                             ''party'', ''celebration'', ''family'', ''friend'', ''personal'',
                             ''vacation'', ''holiday'', ''doctor'', ''dentist'', ''appointment'',
                             ''gym'', ''workout'', ''exercise''}"
    by (simp add: personalKeywords_def)
  show "categorizeEvent lower title desc =
     (let text = lower (title @ '' '' @ (case desc of None \<Rightarrow> [] | Some d \<Rightarrow> d))
      in if \<exists>k\<in>{''meeting'', ''call'', ''interview'', ''presentation'', ''conference'',
                        ''workshop'', ''training'', ''review'', ''planning'', ''standup'', ''sprint'',
                        ''demo'', ''client'', ''business'', ''work'', ''office'', ''team'',
                        ''project'', ''deadline'', ''deliverable''}. sublist k text
         then WORK
         else if \<exists>k\<in>{''birthday'', ''anniversary'', ''dinner'', ''lunch'', ''coffee'', ''date'',
                             ''party'', ''celebration'', ''family'', ''friend'', ''personal'',
                             ''vacation'', ''holiday'', ''doctor'', ''dentist'', ''appointment'',
                             ''gym'', ''workout'', ''exercise''}. sublist k text
              then PERSONAL
              else UNKNOWN)"
    unfolding categorizeEvent_def list_ex_includes d w p ..
next
  show "syncEvents rejects now db u events = (Inr (), db') \<longrightarrow>
      (\<forall>g\<in>set events. \<exists>row.
         findByUserIdAndEventId db' u (g_id g) = Some row \<and> event_type row = ''WORK'')"
  proof (intro impI ballI)
    fix g assume s: "syncEvents rejects now db u events = (Inr (), db')" and "g \<in> set events"
    then have "typed_WORK db' u (g_id g)"
      by (intro typed_WORK_syncEvents [OF s]) auto
    then show "\<exists>row. findByUserIdAndEventId db' u (g_id g) = Some row \<and> event_type row = ''WORK''"
      by (rule typed_WORK_find)
  qed
qed

lemma lower_team_lunch: "ascii_lower ''Team Lunch '' = ''team lunch ''"
  by code_simp

lemma lower_birthday_party: "ascii_lower ''Birthday party '' = ''birthday party ''"
  by code_simp

lemma lower_nap: "ascii_lower ''Nap ZZZ'' = ''nap zzz''"
  by code_simp

lemma sync_birthday:
  "syncEvents schemaRejects 0 [] 1 [birthdayParty] =
     (Inr (), [insertedRow 0 (syncEventData 0 1 birthdayParty)])"
proof -
  have "schemaRejects (syncEventData 0 1 birthdayParty) = None"
    by (simp add: schemaRejects_def char_count_def syncEventData_def birthdayParty_def
        meeting_def js_or_def)
  then show ?thesis
    by (simp add: upsert_def Let_def findByUserIdAndEventId_def)
qed

text \<open>
  Claim C4 as stated fails on the sync path: a birthday party is categorized PERSONAL and
  stored as WORK.
\<close>

theorem sync_ignores_category_counterexample:
  "g_summary birthdayParty = Some ''Birthday party'' \<and>
   categorizeEvent ascii_lower ''Birthday party'' (g_description birthdayParty) = PERSONAL \<and>
   map_prod id (map event_type) (syncEvents schemaRejects 0 [] 1 [birthdayParty]) =
     (Inr (), [''WORK'']) \<and>
   EventType_value PERSONAL \<noteq> ''WORK''"
proof -
  have "g_description birthdayParty = None" "g_summary birthdayParty = Some ''Birthday party''"
    by (simp_all add: birthdayParty_def meeting_def)
  moreover have "categorizeEvent ascii_lower ''Birthday party'' None = PERSONAL"
    by code_simp
  moreover have "event_type (insertedRow 0 (syncEventData 0 1 birthdayParty)) = ''WORK''"
    by (simp add: insertedRow_def syncEventData_def)
  ultimately show ?thesis
    unfolding sync_birthday by simp
qed

text \<open>
  The amended statement at a title with capitals and a keyword of each set, at the
  birthday party and at a text without keyword.
\<close>

theorem categorizeEvent_order_and_sync_default_witness:
  "categorizeEvent ascii_lower ''Team Lunch'' None = WORK \<and>
   categorizeEvent ascii_lower ''Birthday party'' None = PERSONAL \<and>
   categorizeEvent ascii_lower ''Nap'' (Some ''ZZZ'') = UNKNOWN \<and>
   fst (syncEvents schemaRejects 0 [] 1 [birthdayParty]) = Inr () \<and>
   birthdayParty \<in> set [birthdayParty] \<and>
   map_option event_type
     (findByUserIdAndEventId (snd (syncEvents schemaRejects 0 [] 1 [birthdayParty])) 1
        (g_id birthdayParty)) = Some ''WORK''"
proof -
  have w1: "sublist ''team'' ''team lunch ''"
    by code_simp
  have w2: "\<not> (\<exists>k\<in>{''meeting'', ''call'', ''interview'', ''presentation'', ''conference'',
                        ''workshop'', ''training'', ''review'', ''planning'', ''standup'', ''sprint'',
                        ''demo'', ''client'', ''business'', ''work'', ''office'', ''team'',
                        ''project'', ''deadline'', ''deliverable''}. sublist k ''birthday party '')"
    by code_simp
  have p2: "sublist ''birthday'' ''birthday party ''"
    by code_simp
  have w3: "\<not> (\<exists>k\<in>{''meeting'', ''call'', ''interview'', ''presentation'', ''conference'',
                        ''workshop'', ''training'', ''review'', ''planning'', ''standup'', ''sprint'',
                        ''demo'', ''client'', ''business'', ''work'', ''office'', ''team'',
                        ''project'', ''deadline'', ''deliverable''}. sublist k ''nap zzz'')"
    by code_simp
  have p3: "\<not> (\<exists>k\<in>{''birthday'', ''anniversary'', ''dinner'', ''lunch'', ''coffee'', ''date'',
                             ''party'', ''celebration'', ''family'', ''friend'', ''personal'',
                             ''vacation'', ''holiday'', ''doctor'', ''dentist'', ''appointment'',
                             ''gym'', ''workout'', ''exercise''}. sublist k ''nap zzz'')"
    by code_simp
  have a: "categorizeEvent ascii_lower ''Team Lunch'' None = WORK"
    using categorizeEvent_order_and_sync_default [of ascii_lower "''Team Lunch''" None] w1
    by (simp add: lower_team_lunch)
  have b: "categorizeEvent ascii_lower ''Birthday party'' None = PERSONAL"
    using categorizeEvent_order_and_sync_default [of ascii_lower "''Birthday party''" None] w2 p2
    by (simp add: lower_birthday_party)
  have c: "categorizeEvent ascii_lower ''Nap'' (Some ''ZZZ'') = UNKNOWN"
    using categorizeEvent_order_and_sync_default [of ascii_lower "''Nap''" "Some ''ZZZ''"] w3 p3
    by (simp add: lower_nap)
  have "\<exists>row. findByUserIdAndEventId [insertedRow 0 (syncEventData 0 1 birthdayParty)] 1
                 (g_id birthdayParty) = Some row \<and> event_type row = ''WORK''"
    using categorizeEvent_order_and_sync_default
      [of ascii_lower "''Nap''" None schemaRejects 0 "[]" 1 "[birthdayParty]"
          "[insertedRow 0 (syncEventData 0 1 birthdayParty)]"] sync_birthday
    by simp
  then have d: "map_option event_type
     (findByUserIdAndEventId (snd (syncEvents schemaRejects 0 [] 1 [birthdayParty])) 1
        (g_id birthdayParty)) = Some ''WORK''"
    unfolding sync_birthday by auto
  from a b c d show ?thesis
    unfolding sync_birthday by simp
qed

section \<open>The per-user timers\<close>

lemma same_id_same_task:
  assumes "distinct (map task_id ts)" "a \<in> set ts" "b \<in> set ts" "task_id a = task_id b"
  shows "a = b"
  using assms by (meson distinct_map inj_onD)

lemma sched_inv_new: "sched_inv newScheduler"
  by (simp add: sched_inv_def newScheduler_def)

lemma stop_unregistered: "jobs st u = None \<Longrightarrow> stopUserAutomation st u = st"
  by (simp add: stopUserAutomation_def)

lemma sched_inv_stop:
  assumes "sched_inv st"
  shows "sched_inv (stopUserAutomation st u)"
proof (cases "jobs st u")
  case None
  with assms show ?thesis by (simp add: stop_unregistered)
next
  case (Some job)
  let ?keep = "\<lambda>t. task_id t \<noteq> task_id job"
  have st': "stopUserAutomation st u =
      st \<lparr> running := filter ?keep (running st), jobs := (jobs st)(u := None) \<rparr>"
    using Some by (simp add: stopUserAutomation_def)
  have d: "distinct (map task_id (running st))"
    and r: "\<And>t. t \<in> set (running st) \<Longrightarrow> task_id t < created st \<and> jobs st (task_user t) = Some t"
    and j: "\<And>v t. jobs st v = Some t \<Longrightarrow> t \<in> set (running st) \<and> task_user t = v"
    using assms by (auto simp: sched_inv_def)
  have job: "job \<in> set (running st)" "task_user job = u"
    using j [OF Some] by simp_all
  have 1: "distinct (map task_id (filter ?keep (running st)))"
    using d by (rule distinct_map_filter)
  have 2: "\<forall>t\<in>set (filter ?keep (running st)).
             task_id t < created st \<and> ((jobs st)(u := None)) (task_user t) = Some t"
  proof
    fix t assume t: "t \<in> set (filter ?keep (running st))"
    then have tr: "t \<in> set (running st)" and ne: "task_id t \<noteq> task_id job"
      by simp_all
    have "task_user t \<noteq> u"
    proof
      assume "task_user t = u"
      with r [OF tr] Some have "t = job" by simp
      with ne show False by simp
    qed
    with r [OF tr] show "task_id t < created st \<and> ((jobs st)(u := None)) (task_user t) = Some t"
      by simp
  qed
  have 3: "\<forall>v t. ((jobs st)(u := None)) v = Some t \<longrightarrow>
             t \<in> set (filter ?keep (running st)) \<and> task_user t = v"
  proof (intro allI impI)
    fix v t assume a: "((jobs st)(u := None)) v = Some t"
    then have vu: "v \<noteq> u" and jv: "jobs st v = Some t"
      by (auto split: if_splits)
    have tr: "t \<in> set (running st)" "task_user t = v"
      using j [OF jv] by simp_all
    have "task_id t \<noteq> task_id job"
    proof
      assume "task_id t = task_id job"
      with d tr(1) job(1) have "t = job" by (rule same_id_same_task)
      with tr(2) job(2) vu show False by simp
    qed
    with tr show "t \<in> set (filter ?keep (running st)) \<and> task_user t = v"
      by simp
  qed
  show ?thesis
    unfolding st' sched_inv_def using 1 2 3 by simp
qed

lemma jobs_after_stop: "jobs (stopUserAutomation st u) u = None"
  by (cases "jobs st u") (simp_all add: stopUserAutomation_def)

lemma created_after_stop: "created (stopUserAutomation st u) = created st"
  by (cases "jobs st u") (simp_all add: stopUserAutomation_def)

lemma old_job_stopped:
  "jobs st u = Some old \<Longrightarrow> old \<notin> set (running (stopUserAutomation st u))"
  by (simp add: stopUserAutomation_def)

text \<open>The state after a start that passes the guard and the scheduling.\<close>

lemma start_enabled:
  assumes "automation_enabled user"
  shows "startUserAutomation (Inr (Some user)) True st u =
     (let st1 = stopUserAutomation st u;
          job = \<lparr> task_id = created st1, task_user = u, task_time = daily_summary_time user \<rparr>
      in st1 \<lparr> jobs := (jobs st1)(u \<mapsto> job), running := running st1 @ [job],
               created := Suc (created st1) \<rparr>)"
  using assms by (simp add: startUserAutomation_def Let_def)

lemma sched_inv_add:
  assumes "sched_inv st1" "jobs st1 u = None"
  shows "sched_inv (st1 \<lparr> jobs := (jobs st1)(u \<mapsto> \<lparr> task_id = created st1, task_user = u, task_time = tm \<rparr>),
                         running := running st1 @ [\<lparr> task_id = created st1, task_user = u, task_time = tm \<rparr>],
                         created := Suc (created st1) \<rparr>)"
proof -
  let ?job = "\<lparr> task_id = created st1, task_user = u, task_time = tm \<rparr>"
  have d: "distinct (map task_id (running st1))"
    and r: "\<And>t. t \<in> set (running st1) \<Longrightarrow> task_id t < created st1 \<and> jobs st1 (task_user t) = Some t"
    and j: "\<And>v t. jobs st1 v = Some t \<Longrightarrow> t \<in> set (running st1) \<and> task_user t = v"
    using assms(1) by (auto simp: sched_inv_def)
  have fresh: "created st1 \<notin> task_id ` set (running st1)"
    using r by fastforce
  have other: "\<And>t. t \<in> set (running st1) \<Longrightarrow> task_user t \<noteq> u"
    using r assms(2) by fastforce
  have 1: "distinct (map task_id (running st1 @ [?job]))"
    using d fresh by simp
  have 2: "\<forall>t\<in>set (running st1 @ [?job]).
      task_id t < Suc (created st1) \<and> ((jobs st1)(u \<mapsto> ?job)) (task_user t) = Some t"
    using r other by (auto simp: less_Suc_eq)
  have 3: "\<forall>v t. ((jobs st1)(u \<mapsto> ?job)) v = Some t \<longrightarrow>
      t \<in> set (running st1 @ [?job]) \<and> task_user t = v"
    using j by (auto split: if_splits)
  show ?thesis
    unfolding sched_inv_def using 1 2 3 by simp
qed

lemma sched_inv_start:
  assumes "sched_inv st"
  shows "sched_inv (startUserAutomation found accepted st u)"
proof (cases found)
  case (Inl e)
  with assms show ?thesis by (simp add: startUserAutomation_def)
next
  case (Inr uo)
  show ?thesis
  proof (cases uo)
    case None
    with Inr assms show ?thesis by (simp add: startUserAutomation_def)
  next
    case (Some user)
    show ?thesis
    proof (cases "automation_enabled user \<and> accepted")
      case True
      have "sched_inv (stopUserAutomation st u)"
        using assms by (rule sched_inv_stop)
      then show ?thesis
        using Inr Some True sched_inv_add [of "stopUserAutomation st u" u "daily_summary_time user"]
        by (simp add: startUserAutomation_def Let_def jobs_after_stop)
    next
      case False
      with Inr Some assms sched_inv_stop [OF assms, of u] show ?thesis
        by (auto simp: startUserAutomation_def Let_def)
    qed
  qed
qed

lemma reachable_inv: "reachable st \<Longrightarrow> sched_inv st"
proof (induction rule: reachable.induct)
  case init
  show ?case by (rule sched_inv_new)
next
  case (start st found accepted u)
  from start.IH show ?case by (rule sched_inv_start)
next
  case (stop st u)
  from stop.IH show ?case by (rule sched_inv_stop)
qed

lemma filter_eq_single:
  "distinct xs \<Longrightarrow> t \<in> set xs \<Longrightarrow> filter (\<lambda>x. x = t) xs = [t]"
proof (induction xs)
  case Nil
  then show ?case by simp
next
  case (Cons x xs)
  show ?case
  proof (cases "x = t")
    case True
    then have "t \<notin> set xs" using Cons.prems(1) by simp
    then have "filter (\<lambda>x. x = t) xs = []"
      unfolding filter_empty_conv by blast
    with True show ?thesis by simp
  next
    case False
    then have "t \<in> set xs" using Cons.prems(2) by simp
    moreover have "distinct xs" using Cons.prems(1) by simp
    ultimately have "filter (\<lambda>x. x = t) xs = [t]" by (rule Cons.IH [rotated])
    with False show ?thesis by simp
  qed
qed

lemma filter_single:
  assumes "distinct xs" "t \<in> set xs" "P t" "\<And>x. x \<in> set xs \<Longrightarrow> P x \<Longrightarrow> x = t"
  shows "filter P xs = [t]"
proof -
  have "filter P xs = filter (\<lambda>x. x = t) xs"
  proof (rule filter_cong [OF refl])
    fix x assume "x \<in> set xs"
    then show "P x = (x = t)" using assms(3,4) by blast
  qed
  also have "\<dots> = [t]"
    using assms(1,2) by (rule filter_eq_single)
  finally show ?thesis .
qed

lemma activeTimers_inv:
  assumes "sched_inv st"
  shows "activeTimers st u = (case jobs st u of None \<Rightarrow> [] | Some job \<Rightarrow> [job])"
proof -
  have d: "distinct (map task_id (running st))"
    and r: "\<And>t. t \<in> set (running st) \<Longrightarrow> jobs st (task_user t) = Some t"
    and j: "\<And>v t. jobs st v = Some t \<Longrightarrow> t \<in> set (running st) \<and> task_user t = v"
    using assms unfolding sched_inv_def by blast+
  show ?thesis
  proof (cases "jobs st u")
    case None
    have "\<forall>t\<in>set (running st). task_user t \<noteq> u"
    proof
      fix t assume "t \<in> set (running st)"
      then have "jobs st (task_user t) = Some t" by (rule r)
      with None show "task_user t \<noteq> u" by auto
    qed
    then have "filter (\<lambda>t. task_user t = u) (running st) = []"
      unfolding filter_empty_conv by blast
    with None show ?thesis by (simp add: activeTimers_def)
  next
    case (Some job)
    have dr: "distinct (running st)"
      using d by (simp add: distinct_map)
    have jr: "job \<in> set (running st)" and ju: "task_user job = u"
      using j [OF Some] by simp_all
    have only: "\<And>x. x \<in> set (running st) \<Longrightarrow> task_user x = u \<Longrightarrow> x = job"
    proof -
      fix x assume "x \<in> set (running st)" "task_user x = u"
      then have "jobs st u = Some x" using r by blast
      with Some show "x = job" by simp
    qed
    have "filter (\<lambda>t. task_user t = u) (running st) = [job]"
      using dr jr ju only by (rule filter_single)
    with Some show ?thesis by (simp add: activeTimers_def)
  qed
qed

lemma start_registers:
  assumes "automation_enabled user"
  shows "jobs (startUserAutomation (Inr (Some user)) True st u) u =
           Some \<lparr> task_id = created st, task_user = u, task_time = daily_summary_time user \<rparr>"
    and "running (startUserAutomation (Inr (Some user)) True st u) =
           running (stopUserAutomation st u) @
           [\<lparr> task_id = created st, task_user = u, task_time = daily_summary_time user \<rparr>]"
  using assms by (simp_all add: start_enabled Let_def created_after_stop)

lemma start_leaves_one:
  assumes "sched_inv st" "automation_enabled user"
  shows "length (activeTimers (startUserAutomation (Inr (Some user)) True st u) u) = 1"
proof -
  have "sched_inv (startUserAutomation (Inr (Some user)) True st u)"
    using assms(1) by (rule sched_inv_start)
  then show ?thesis
    by (simp add: activeTimers_inv start_registers(1) [OF assms(2)])
qed

lemma start_cancels_old:
  assumes "sched_inv st" "automation_enabled user" "jobs st u = Some old"
  shows "old \<notin> set (running (startUserAutomation (Inr (Some user)) True st u))"
proof -
  have "old \<in> set (running st)"
    using assms(1,3) unfolding sched_inv_def by blast
  then have "task_id old < created st"
    using assms(1) unfolding sched_inv_def by blast
  then have "old \<noteq> \<lparr> task_id = created st, task_user = u, task_time = daily_summary_time user \<rparr>"
    by auto
  moreover have "old \<notin> set (running (stopUserAutomation st u))"
    using assms(3) by (rule old_job_stopped)
  ultimately show ?thesis
    by (simp add: start_registers(2) [OF assms(2)])
qed

lemma start_guard:
  assumes "\<forall>user. found = Inr (Some user) \<longrightarrow> \<not> automation_enabled user"
  shows "startUserAutomation found accepted st u = st"
  using assms by (auto simp: startUserAutomation_def split: sum.splits option.splits)

text \<open>
  Claim C5, amended. In every state the scheduler reaches, a user has at most one running
  timer. For a user that is found with automation enabled and a schedule the cron library
  accepts, a start stops the timer registered before and leaves exactly one running timer
  for the user, and so does a second start in a row. When the lookup finds no user or the
  user has automation disabled, a start changes nothing. Stopping a user with no
  registered timer changes nothing.
\<close>

theorem one_timer_per_user:
  assumes "reachable st"
  shows "length (activeTimers st u) \<le> 1 \<and>
     (automation_enabled user \<longrightarrow>
        (let st' = startUserAutomation (Inr (Some user)) True st u
         in (\<forall>old. jobs st u = Some old \<longrightarrow> old \<notin> set (running st')) \<and>
            length (activeTimers st' u) = 1 \<and>
            length (activeTimers (startUserAutomation (Inr (Some user)) True st' u) u) = 1)) \<and>
     ((\<forall>user'. found = Inr (Some user') \<longrightarrow> \<not> automation_enabled user') \<longrightarrow>
        startUserAutomation found accepted st u = st) \<and>
     (jobs st u = None \<longrightarrow> stopUserAutomation st u = st)"
proof -
  have inv: "sched_inv st"
    using assms by (rule reachable_inv)
  have a: "length (activeTimers st u) \<le> 1"
    by (simp add: activeTimers_inv [OF inv] split: option.splits)
  have b: "automation_enabled user \<longrightarrow>
        (let st' = startUserAutomation (Inr (Some user)) True st u
         in (\<forall>old. jobs st u = Some old \<longrightarrow> old \<notin> set (running st')) \<and>
            length (activeTimers st' u) = 1 \<and>
            length (activeTimers (startUserAutomation (Inr (Some user)) True st' u) u) = 1)"
  proof
    assume en: "automation_enabled user"
    let ?st' = "startUserAutomation (Inr (Some user)) True st u"
    have inv': "sched_inv ?st'"
      using inv by (rule sched_inv_start)
    have "\<forall>old. jobs st u = Some old \<longrightarrow> old \<notin> set (running ?st')"
      using start_cancels_old [OF inv en] by blast
    moreover have "length (activeTimers ?st' u) = 1"
      using inv en by (rule start_leaves_one)
    moreover have "length (activeTimers (startUserAutomation (Inr (Some user)) True ?st' u) u) = 1"
      using inv' en by (rule start_leaves_one)
    ultimately show "let st' = ?st'
         in (\<forall>old. jobs st u = Some old \<longrightarrow> old \<notin> set (running st')) \<and>
            length (activeTimers st' u) = 1 \<and>
            length (activeTimers (startUserAutomation (Inr (Some user)) True st' u) u) = 1"
      unfolding Let_def by (intro conjI)
  qed
  have c: "(\<forall>user'. found = Inr (Some user') \<longrightarrow> \<not> automation_enabled user') \<longrightarrow>
        startUserAutomation found accepted st u = st"
    using start_guard by blast
  have d: "jobs st u = None \<longrightarrow> stopUserAutomation st u = st"
    using stop_unregistered by blast
  from a b c d show ?thesis by (intro conjI)
qed

text \<open>Claim C5 as stated fails under the guard: two starts of a disabled user leave no timer, and a start of a user disabled in between leaves the old timer running.\<close>

theorem start_respects_guard_counterexample:
  "activeTimers
     (startUserAutomation (Inr (Some disabledUser)) True
        (startUserAutomation (Inr (Some disabledUser)) True newScheduler 1) 1) 1 = [] \<and>
   running (startUserAutomation (Inr (Some sampleUser)) True newScheduler 1) =
     [\<lparr> task_id = 0, task_user = 1, task_time = ''08:00'' \<rparr>] \<and>
   running (startUserAutomation (Inr (Some disabledUser)) True
              (startUserAutomation (Inr (Some sampleUser)) True newScheduler 1) 1) =
     [\<lparr> task_id = 0, task_user = 1, task_time = ''08:00'' \<rparr>]"
  by (simp add: startUserAutomation_def stopUserAutomation_def newScheduler_def activeTimers_def
      disabledUser_def sampleUser_def Let_def)

text \<open>Two starts of the sample user, and a stop of an unknown user.\<close>

theorem one_timer_per_user_witness:
  "reachable (startUserAutomation (Inr (Some sampleUser)) True newScheduler 1) \<and>
   automation_enabled sampleUser \<and>
   jobs (startUserAutomation (Inr (Some sampleUser)) True newScheduler 1) 1 =
     Some \<lparr> task_id = 0, task_user = 1, task_time = ''08:00'' \<rparr> \<and>
   running (startUserAutomation (Inr (Some sampleUser)) True
              (startUserAutomation (Inr (Some sampleUser)) True newScheduler 1) 1) =
     [\<lparr> task_id = 1, task_user = 1, task_time = ''08:00'' \<rparr>] \<and>
   length (activeTimers (startUserAutomation (Inr (Some sampleUser)) True
              (startUserAutomation (Inr (Some sampleUser)) True newScheduler 1) 1) 1) = 1 \<and>
   jobs newScheduler 7 = None \<and> stopUserAutomation newScheduler 7 = newScheduler"
proof -
  have r: "reachable (startUserAutomation (Inr (Some sampleUser)) True newScheduler 1)"
    by (rule reachable.start) (rule reachable.init)
  have e: "automation_enabled sampleUser"
    by (simp add: sampleUser_def)
  have j: "jobs (startUserAutomation (Inr (Some sampleUser)) True newScheduler 1) 1 =
     Some \<lparr> task_id = 0, task_user = 1, task_time = ''08:00'' \<rparr>"
    by (simp add: startUserAutomation_def stopUserAutomation_def newScheduler_def sampleUser_def Let_def)
  have run: "running (startUserAutomation (Inr (Some sampleUser)) True
              (startUserAutomation (Inr (Some sampleUser)) True newScheduler 1) 1) =
     [\<lparr> task_id = 1, task_user = 1, task_time = ''08:00'' \<rparr>]"
    by (simp add: startUserAutomation_def stopUserAutomation_def newScheduler_def sampleUser_def Let_def)
  show ?thesis
    using one_timer_per_user [OF r, of 1 sampleUser "Inr None" True]
      one_timer_per_user [OF reachable.init, of 7 sampleUser "Inr None" True] r e j run
    by (simp add: Let_def newScheduler_def)
qed

end
